theory Spec2Isabelle
  imports Main
begin

section \<open>The snake arena server (src/server.js)\<close>

subsection \<open>Numbers, positions and directions\<close>

text \<open>
  Coordinates are JavaScript numbers. The server only ever produces integers
  (\<open>randomInt\<close>, the unit deltas of \<open>DIRECTIONS\<close>) and, when a delta is
  read from something that is not a direction object, \<open>NaN\<close>. Every comparison
  with \<open>NaN\<close> is false and every sum with \<open>NaN\<close> is \<open>NaN\<close>.
\<close>

datatype jsnum = Num int | NaN

fun js_add :: "jsnum \<Rightarrow> jsnum \<Rightarrow> jsnum" where
  "js_add (Num a) (Num b) = Num (a + b)"
| "js_add _ _ = NaN"

fun js_lt :: "jsnum \<Rightarrow> jsnum \<Rightarrow> bool" where
  "js_lt (Num a) (Num b) = (a < b)"
| "js_lt _ _ = False"

fun js_ge :: "jsnum \<Rightarrow> jsnum \<Rightarrow> bool" where
  "js_ge (Num a) (Num b) = (a \<ge> b)"
| "js_ge _ _ = False"

text \<open>Strict equality \<open>===\<close> on numbers: \<open>NaN\<close> equals nothing, itself included.\<close>

fun js_eq :: "jsnum \<Rightarrow> jsnum \<Rightarrow> bool" where
  "js_eq (Num a) (Num b) = (a = b)"
| "js_eq _ _ = False"

type_synonym pos = "jsnum \<times> jsnum"

text \<open>
  \<open>posKey\<close> renders a point as the string \<open>`${x},${y}`\<close>. On integers and
  \<open>NaN\<close> the rendering is injective, so a key is modelled by the two numbers it
  prints; two keys are the same string exactly when they are the same \<open>key\<close>
  (in particular \<open>"NaN,NaN"\<close> is one key).
\<close>

datatype key = Key jsnum jsnum

fun posKey :: "pos \<Rightarrow> key" where
  "posKey (px, py) = Key px py"

definition TICK_INTERVAL :: int where "TICK_INTERVAL = 110"
definition GRID_COLS :: int where "GRID_COLS = 40"
definition GRID_ROWS :: int where "GRID_ROWS = 30"
definition INITIAL_LENGTH :: nat where "INITIAL_LENGTH = 4"
definition FOOD_TARGET :: nat where "FOOD_TARGET = 5"
definition MAX_SPAWN_ATTEMPTS :: nat where "MAX_SPAWN_ATTEMPTS = 120"

text \<open>The four entries of the \<open>DIRECTIONS\<close> table.\<close>

datatype dir = Up | Right | Down | Left

fun dx :: "dir \<Rightarrow> int" where
  "dx Up = 0" | "dx Right = 1" | "dx Down = 0" | "dx Left = -1"

fun dy :: "dir \<Rightarrow> int" where
  "dy Up = -1" | "dy Right = 0" | "dy Down = 1" | "dy Left = 0"

text \<open>
  \<open>DIRECTIONS\<close> is a plain object literal, so \<open>DIRECTIONS[k]\<close> also finds the
  members every object inherits from \<open>Object.prototype\<close>. A value read out of the
  table is therefore one of the four direction objects, or an inherited member
  (a function, or the prototype object itself under \<open>__proto__\<close>); all of these
  are truthy. Any other key gives \<open>undefined\<close>, modelled by \<open>None\<close>.
\<close>

datatype jsdir = Known dir | Inherited string

definition Object_prototype_keys :: "string list" where
  "Object_prototype_keys =
     [''constructor'', ''__defineGetter__'', ''__defineSetter__'', ''hasOwnProperty'',
      ''__lookupGetter__'', ''__lookupSetter__'', ''isPrototypeOf'',
      ''propertyIsEnumerable'', ''toString'', ''valueOf'', ''__proto__'',
      ''toLocaleString'']"

definition DIRECTIONS :: "string \<Rightarrow> jsdir option" where
  "DIRECTIONS k =
     (if k = ''up'' then Some (Known Up)
      else if k = ''right'' then Some (Known Right)
      else if k = ''down'' then Some (Known Down)
      else if k = ''left'' then Some (Known Left)
      else if k \<in> set Object_prototype_keys then Some (Inherited k)
      else None)"

text \<open>
  The \<open>x\<close> and \<open>y\<close> members of a value read out of the table. An inherited member
  has neither, the read gives \<open>undefined\<close>, and the only use the server makes of
  it is as an operand of \<open>+\<close>, where \<open>undefined\<close> behaves as \<open>NaN\<close>.
\<close>

fun dir_x :: "jsdir \<Rightarrow> jsnum" where
  "dir_x (Known d) = Num (dx d)"
| "dir_x (Inherited _) = NaN"

fun dir_y :: "jsdir \<Rightarrow> jsnum" where
  "dir_y (Known d) = Num (dy d)"
| "dir_y (Inherited _) = NaN"

text \<open>\<open>isOpposite(a, b)\<close> for two non-null arguments.\<close>

definition isOpposite :: "jsdir \<Rightarrow> jsdir \<Rightarrow> bool" where
  "isOpposite a b =
     (js_eq (js_add (dir_x a) (dir_x b)) (Num 0) \<and> js_eq (js_add (dir_y a) (dir_y b)) (Num 0))"

subsection \<open>Participants and the world\<close>

text \<open>
  The \<open>players\<close> map, in insertion order, as the list of its values; the key of an
  entry is the player's \<open>id\<close> (the socket id). A reference to a player object is
  its position in this list.
\<close>

record player =
  pid :: string
  pname :: string
  color :: string
  alive :: bool
  snake :: "pos list"
  direction :: "jsdir option"
  pendingDirection :: "jsdir option"
  score :: int
  best :: int
  deaths :: int
  createdAt :: int
  lastInputAt :: int
  spawnedAt :: "int option"

text \<open>\<open>Array.prototype.findIndex\<close>, with \<open>None\<close> for \<open>-1\<close>.\<close>

fun findIndex :: "('a \<Rightarrow> bool) \<Rightarrow> 'a list \<Rightarrow> nat option" where
  "findIndex P [] = None"
| "findIndex P (a # as) = (if P a then Some 0 else map_option Suc (findIndex P as))"

text \<open>\<open>players.get(id)\<close>: the reference to the entry stored under the id.\<close>

definition players_get :: "player list \<Rightarrow> string \<Rightarrow> nat option" where
  "players_get ps k = findIndex (\<lambda>p. pid p = k) ps"

subsection \<open>Input handling\<close>

text \<open>
  \<open>handleInput(socket, payload)\<close>. \<open>sid\<close> is \<open>socket.id\<close>, \<open>directionKey\<close> is the
  property key that \<open>payload && payload.direction\<close> denotes when it indexes
  \<open>DIRECTIONS\<close>, and \<open>now\<close> is \<open>Date.now()\<close>.
\<close>

definition handleInput :: "player list \<Rightarrow> string \<Rightarrow> string \<Rightarrow> int \<Rightarrow> player list" where
  "handleInput ps sid directionKey now =
     (case players_get ps sid of
        None \<Rightarrow> ps
      | Some i \<Rightarrow>
          let p = ps ! i in
          if alive p then
            (case DIRECTIONS directionKey of
               None \<Rightarrow> ps
             | Some nextDirection \<Rightarrow>
                 (case direction p of
                    None \<Rightarrow> ps[i := p\<lparr>pendingDirection := Some nextDirection, lastInputAt := now\<rparr>]
                  | Some d \<Rightarrow>
                      if isOpposite d nextDirection then ps
                      else ps[i := p\<lparr>pendingDirection := Some nextDirection, lastInputAt := now\<rparr>]))
          else ps)"

subsection \<open>Planned moves\<close>

datatype reason = Wall | Body | Head

text \<open>
  A planned move. \<open>mplayer\<close> is the reference \<open>move.player\<close>; \<open>reason = None\<close>
  is \<open>null\<close>.
\<close>

record move =
  mplayer :: nat
  mdirection :: jsdir
  nextHead :: pos
  willEat :: bool
  dead :: bool
  reason :: "reason option"

definition chooseDirection :: "player \<Rightarrow> jsdir" where
  "chooseDirection p =
     (case pendingDirection p of
        None \<Rightarrow> (case direction p of None \<Rightarrow> Known Right | Some d \<Rightarrow> d)
      | Some pd \<Rightarrow>
          (case direction p of
             None \<Rightarrow> pd
           | Some d \<Rightarrow> if isOpposite d pd then d else pd))"

text \<open>\<open>food.x === p.x && food.y === p.y\<close>.\<close>

definition sameCell :: "pos \<Rightarrow> pos \<Rightarrow> bool" where
  "sameCell p food = (js_eq (fst food) (fst p) \<and> js_eq (snd food) (snd p))"

text \<open>
  \<open>createMove(player)\<close>, for the player object at reference \<open>i\<close>. Reading
  \<open>head.x\<close> of an empty body throws a TypeError: \<open>None\<close>.
\<close>

definition createMove :: "pos list \<Rightarrow> nat \<Rightarrow> player \<Rightarrow> move option" where
  "createMove fs i p =
     (let d = chooseDirection p in
      case snake p of
        [] \<Rightarrow> None
      | head # _ \<Rightarrow>
          let nh = (js_add (fst head) (dir_x d), js_add (snd head) (dir_y d)) in
          Some \<lparr>mplayer = i, mdirection = d, nextHead = nh,
                willEat = list_ex (sameCell nh) fs, dead = False, reason = None\<rparr>)"

subsection \<open>The occupancy index and the move table\<close>

text \<open>
  \<open>buildBodyOccupancy()\<close>: a \<open>Map\<close> from cell key to \<open>{playerId, index}\<close>; a later
  \<open>set\<close> of the same key replaces the earlier one.
\<close>

definition buildBodyOccupancy :: "player list \<Rightarrow> key \<rightharpoonup> (string \<times> nat)" where
  "buildBodyOccupancy ps =
     fold (\<lambda>p m.
        if alive p
        then fold (\<lambda>(index, segment) m'. m'(posKey segment \<mapsto> (pid p, index)))
               (enumerate 0 (snake p)) m
        else m) ps Map.empty"

text \<open>
  \<open>moveById\<close>: the \<open>Map\<close> from \<open>move.player.id\<close> to the move object, built once
  before the passes. The move object is given by its position in \<open>liveMoves\<close>, so
  that a later read of \<open>occupantMove.dead\<close> sees the flag as the passes have left
  it.
\<close>

definition moveById :: "player list \<Rightarrow> move list \<Rightarrow> string \<rightharpoonup> nat" where
  "moveById ps ms = fold (\<lambda>j m. m(pid (ps ! mplayer (ms ! j)) \<mapsto> j)) [0..<length ms] Map.empty"

subsection \<open>Collision resolution\<close>

definition outOfGrid :: "pos \<Rightarrow> bool" where
  "outOfGrid p =
     (js_lt (fst p) (Num 0) \<or> js_ge (fst p) (Num GRID_COLS) \<or>
      js_lt (snd p) (Num 0) \<or> js_ge (snd p) (Num GRID_ROWS))"

definition kill :: "reason \<Rightarrow> move \<Rightarrow> move" where
  "kill why m = m\<lparr>dead := True, reason := Some why\<rparr>"

text \<open>The wall pass: each iteration touches its own move only.\<close>

definition wallPass :: "move list \<Rightarrow> move list" where
  "wallPass ms = map (\<lambda>m. if dead m then m else if outOfGrid (nextHead m) then kill Wall m else m) ms"

text \<open>\<open>isTail\<close>: \<open>occupantPlayer && occupant.index === occupantPlayer.snake.length - 1\<close>.\<close>

definition isTail :: "player list \<Rightarrow> string \<Rightarrow> nat \<Rightarrow> bool" where
  "isTail ps opid oindex =
     (case players_get ps opid of
        None \<Rightarrow> False
      | Some j \<Rightarrow> int oindex = int (length (snake (ps ! j))) - 1)"

text \<open>
  \<open>occupantWillVacate\<close>, read off the move list \<open>ms\<close> as it stands when the
  moving snake is examined.
\<close>

definition occupantWillVacate ::
    "player list \<Rightarrow> (string \<rightharpoonup> nat) \<Rightarrow> move list \<Rightarrow> string \<Rightarrow> nat \<Rightarrow> bool" where
  "occupantWillVacate ps byId ms opid oindex =
     (case byId opid of
        None \<Rightarrow> False
      | Some j \<Rightarrow> \<not> dead (ms ! j) \<and> \<not> willEat (ms ! j) \<and> isTail ps opid oindex)"

text \<open>One iteration of the body pass: the callback applied to \<open>liveMoves[i]\<close>.\<close>

definition bodyStep ::
    "player list \<Rightarrow> (key \<rightharpoonup> (string \<times> nat)) \<Rightarrow> (string \<rightharpoonup> nat) \<Rightarrow> nat \<Rightarrow> move list \<Rightarrow> move list" where
  "bodyStep ps bodyOccupancy byId i ms =
     (let m = ms ! i in
      if dead m then ms
      else
        (case bodyOccupancy (posKey (nextHead m)) of
           None \<Rightarrow> ms
         | Some (opid, oindex) \<Rightarrow>
             let vacates = occupantWillVacate ps byId ms opid oindex in
             if opid = pid (ps ! mplayer m) \<and> vacates then ms
             else if opid \<noteq> pid (ps ! mplayer m) \<and> vacates then ms
             else ms[i := kill Body m]))"

text \<open>
  The body pass under an iteration order, given as the list of the positions
  visited; the server visits \<open>liveMoves\<close> front to back.
\<close>

definition bodyPassIn ::
    "nat list \<Rightarrow> player list \<Rightarrow> (key \<rightharpoonup> (string \<times> nat)) \<Rightarrow> (string \<rightharpoonup> nat) \<Rightarrow> move list \<Rightarrow> move list" where
  "bodyPassIn order ps bodyOccupancy byId ms = fold (bodyStep ps bodyOccupancy byId) order ms"

definition bodyPass ::
    "player list \<Rightarrow> (key \<rightharpoonup> (string \<times> nat)) \<Rightarrow> (string \<rightharpoonup> nat) \<Rightarrow> move list \<Rightarrow> move list" where
  "bodyPass ps bodyOccupancy byId ms = bodyPassIn [0..<length ms] ps bodyOccupancy byId ms"

text \<open>
  \<open>headOccupancy\<close>: a \<open>Map\<close> from cell key to a count, in insertion order (the
  order \<open>forEach\<close> visits it in).
\<close>

fun bump :: "key \<Rightarrow> (key \<times> nat) list \<Rightarrow> (key \<times> nat) list" where
  "bump k [] = [(k, 1)]"
| "bump k ((k', c) # rest) = (if k' = k then (k', c + 1) # rest else (k', c) # bump k rest)"

definition headOccupancy :: "move list \<Rightarrow> (key \<times> nat) list" where
  "headOccupancy ms = fold (\<lambda>m occ. if dead m then occ else bump (posKey (nextHead m)) occ) ms []"

text \<open>The inner loop of the head pass, for one contested key.\<close>

definition killClaimants :: "key \<Rightarrow> move list \<Rightarrow> move list" where
  "killClaimants k ms = map (\<lambda>m. if posKey (nextHead m) = k then kill Head m else m) ms"

definition headPass :: "move list \<Rightarrow> move list" where
  "headPass ms =
     fold (\<lambda>(k, count) ms'. if count < 2 then ms' else killClaimants k ms') (headOccupancy ms) ms"

text \<open>The three passes of \<open>tick\<close>, on the moves of this tick.\<close>

definition resolve :: "player list \<Rightarrow> move list \<Rightarrow> move list" where
  "resolve ps liveMoves =
     (let bodyOccupancy = buildBodyOccupancy ps;
          byId = moveById ps liveMoves
      in headPass (bodyPass ps bodyOccupancy byId (wallPass liveMoves)))"

subsection \<open>Committing the moves\<close>

text \<open>\<open>killPlayer(player, reason)\<close>; the emitted events are not part of the state.\<close>

definition killPlayer :: "player \<Rightarrow> player" where
  "killPlayer p =
     (if alive p
      then p\<lparr>alive := False, snake := [], direction := None, pendingDirection := None,
             score := 0, deaths := deaths p + 1\<rparr>
      else p)"

text \<open>\<open>foods.findIndex(...)\<close> followed by \<open>foods.splice(foodIndex, 1)\<close>.\<close>

definition removeFood :: "pos \<Rightarrow> pos list \<Rightarrow> pos list" where
  "removeFood nh fs =
     (case findIndex (sameCell nh) fs of
        None \<Rightarrow> fs
      | Some foodIndex \<Rightarrow> take foodIndex fs @ drop (Suc foodIndex) fs)"

text \<open>
  One iteration of the commit loop, on the players table and the food list.
  \<open>unshift\<close> prepends, \<open>pop\<close> removes the last element.
\<close>

definition commitMove :: "move \<Rightarrow> player list \<times> pos list \<Rightarrow> player list \<times> pos list" where
  "commitMove m = (\<lambda>(ps, fs).
     let i = mplayer m; p = ps ! i in
     if dead m then (ps[i := killPlayer p], fs)
     else
       let p1 = p\<lparr>direction := Some (mdirection m), pendingDirection := Some (mdirection m),
                   snake := nextHead m # snake p\<rparr>
       in if willEat m
          then (ps[i := p1\<lparr>score := score p1 + 1,
                            best := max (best p1) (int (length (snake p1)))\<rparr>],
                removeFood (nextHead m) fs)
          else (ps[i := p1\<lparr>snake := butlast (snake p1)\<rparr>], fs))"

subsection \<open>Randomness\<close>

text \<open>
  \<open>Math.random()\<close> is an input of the model: the sequence of naturals from which
  the successive calls of \<open>randomInt\<close> take their result. \<open>randomInt(max)\<close>
  reduces the next one modulo \<open>max\<close>, so that it ranges over exactly the
  integers \<open>0 .. max - 1\<close> that \<open>Math.floor(Math.random() * max)\<close> can give.
\<close>

type_synonym rng = "nat \<Rightarrow> nat"

definition rng_const :: "nat \<Rightarrow> rng" where
  "rng_const c = (\<lambda>_. c)"

definition rng_drop :: "nat \<Rightarrow> rng \<Rightarrow> rng" where
  "rng_drop k r = (\<lambda>n. r (n + k))"

definition randomInt :: "int \<Rightarrow> rng \<Rightarrow> int \<times> rng" where
  "randomInt mx r = (int (r 0) mod mx, rng_drop 1 r)"

definition randomChoice :: "'a list \<Rightarrow> rng \<Rightarrow> 'a \<times> rng" where
  "randomChoice array r = (let (k, r') = randomInt (int (length array)) r in (array ! nat k, r'))"

subsection \<open>Spawning\<close>

text \<open>\<open>getOccupiedSet()\<close>: the keys of all alive bodies and of all food.\<close>

definition getOccupiedSet :: "player list \<Rightarrow> pos list \<Rightarrow> key set" where
  "getOccupiedSet ps fs =
     (\<Union>p \<in> set (filter alive ps). posKey ` set (snake p)) \<union> posKey ` set fs"

text \<open>The \<open>for\<close> loop of \<open>spawnFood\<close>, with the number of attempts left.\<close>

fun spawnFoodLoop :: "nat \<Rightarrow> key set \<Rightarrow> rng \<Rightarrow> pos option \<times> rng" where
  "spawnFoodLoop 0 occupied r = (None, r)"
| "spawnFoodLoop (Suc n) occupied r =
     (let (x, r1) = randomInt GRID_COLS r;
          (y, r2) = randomInt GRID_ROWS r1
      in if Key (Num x) (Num y) \<in> occupied then spawnFoodLoop n occupied r2
         else (Some (Num x, Num y), r2))"

definition spawnFood :: "player list \<Rightarrow> pos list \<Rightarrow> rng \<Rightarrow> pos option \<times> rng" where
  "spawnFood ps fs r = spawnFoodLoop (nat (GRID_COLS * GRID_ROWS)) (getOccupiedSet ps fs) r"

function ensureFood :: "player list \<Rightarrow> pos list \<Rightarrow> rng \<Rightarrow> pos list \<times> rng" where
  "ensureFood ps fs r =
     (if length fs < FOOD_TARGET
      then (case spawnFood ps fs r of
              (None, r') \<Rightarrow> (fs, r')
            | (Some food, r') \<Rightarrow> ensureFood ps (fs @ [food]) r')
      else (fs, r))"
  by pat_completeness auto
termination
  by (relation "measure (\<lambda>(ps, fs, r). FOOD_TARGET - length fs)") auto

declare ensureFood.simps [simp del]

text \<open>
  \<open>Object.keys(DIRECTIONS)\<close> are the four own keys, and \<open>DIRECTIONS[key]\<close> of an
  own key is its direction object: the choice of a key and its lookup are one
  choice among the four directions.
\<close>

definition directionKeys :: "dir list" where
  "directionKeys = [Up, Right, Down, Left]"

text \<open>
  The inner loop of \<open>spawnPlayer\<close> over the segment numbers still to be laid
  out; \<open>None\<close> is \<open>valid = false\<close>.
\<close>

fun layoutSnake :: "key set \<Rightarrow> dir \<Rightarrow> int \<Rightarrow> int \<Rightarrow> nat list \<Rightarrow> pos list \<Rightarrow> pos list option" where
  "layoutSnake occupied d hx hy [] body = Some body"
| "layoutSnake occupied d hx hy (i # rest) body =
     (let x = hx - dx d * int i; y = hy - dy d * int i in
      if x < 0 \<or> x \<ge> GRID_COLS \<or> y < 0 \<or> y \<ge> GRID_ROWS then None
      else if Key (Num x) (Num y) \<in> occupied then None
      else layoutSnake occupied d hx hy rest (body @ [(Num x, Num y)]))"

text \<open>The attempt loop of \<open>spawnPlayer\<close>, with the number of attempts left.\<close>

fun spawnAttempts :: "nat \<Rightarrow> key set \<Rightarrow> player \<Rightarrow> int \<Rightarrow> rng \<Rightarrow> bool \<times> player \<times> rng" where
  "spawnAttempts 0 occupied p now r = (False, p, r)"
| "spawnAttempts (Suc n) occupied p now r =
     (let (d, r1) = randomChoice directionKeys r;
          (hx, r2) = randomInt GRID_COLS r1;
          (hy, r3) = randomInt GRID_ROWS r2
      in case layoutSnake occupied d hx hy [0..<INITIAL_LENGTH] [] of
           None \<Rightarrow> spawnAttempts n occupied p now r3
         | Some body \<Rightarrow>
             (True,
              p\<lparr>snake := body, direction := Some (Known d), pendingDirection := Some (Known d),
                alive := True, score := 0, spawnedAt := Some now\<rparr>,
              r3))"

text \<open>
  \<open>spawnPlayer(player)\<close> on the state it reads (the players table and the food
  list); the player object is passed and returned by value.
\<close>

definition spawnPlayer :: "player list \<Rightarrow> pos list \<Rightarrow> player \<Rightarrow> int \<Rightarrow> rng \<Rightarrow> bool \<times> player \<times> rng" where
  "spawnPlayer ps fs p now r = spawnAttempts MAX_SPAWN_ATTEMPTS (getOccupiedSet ps fs) p now r"

subsection \<open>The tick\<close>

record world =
  players :: "player list"
  foods :: "pos list"

text \<open>\<open>liveMoves\<close>: one move per alive player, in table order.\<close>

definition planMoves :: "pos list \<Rightarrow> player list \<Rightarrow> move list option" where
  "planMoves fs ps =
     those (map (\<lambda>i. createMove fs i (ps ! i)) (filter (\<lambda>i. alive (ps ! i)) [0..<length ps]))"

text \<open>\<open>tick()\<close>; \<open>None\<close> when \<open>createMove\<close> throws.\<close>

definition tick :: "world \<Rightarrow> rng \<Rightarrow> (world \<times> rng) option" where
  "tick w r =
     (let (fs1, r1) = ensureFood (players w) (foods w) r in
      case planMoves fs1 (players w) of
        None \<Rightarrow> None
      | Some liveMoves \<Rightarrow>
          if liveMoves = [] then Some (w\<lparr>foods := fs1\<rparr>, r1)
          else
            let resolved = resolve (players w) liveMoves;
                (ps2, fs2) = fold commitMove resolved (players w, fs1);
                (fs3, r3) = ensureFood ps2 fs2 r1
            in Some (\<lparr>players = ps2, foods = fs3\<rparr>, r3))"

subsection \<open>Notions used in the statements\<close>

text \<open>The number of surviving moves that target the cell with key \<open>k\<close>.\<close>

definition claimants :: "move list \<Rightarrow> key \<Rightarrow> nat" where
  "claimants ms k = length (filter (\<lambda>m. \<not> dead m \<and> posKey (nextHead m) = k) ms)"

text \<open>The count stored under a key of \<open>headOccupancy\<close>, 0 when the key is absent.\<close>

definition countOf :: "(key \<times> nat) list \<Rightarrow> key \<Rightarrow> nat" where
  "countOf occ k = (case map_of occ k of None \<Rightarrow> 0 | Some c \<Rightarrow> c)"

text \<open>The moves as the wall pass and the body pass of \<open>tick\<close> leave them.\<close>

definition afterBody :: "player list \<Rightarrow> move list \<Rightarrow> move list" where
  "afterBody ps liveMoves =
     bodyPass ps (buildBodyOccupancy ps) (moveById ps liveMoves) (wallPass liveMoves)"

text \<open>
  The body pass as the specification describes it: every vacancy decision is
  taken from the flags as the wall pass left them, whatever the body pass has
  marked in the meantime. This pass is a map over the moves and has no iteration
  order.
\<close>

definition bodyPassSnapshot ::
    "player list \<Rightarrow> (key \<rightharpoonup> (string \<times> nat)) \<Rightarrow> (string \<rightharpoonup> nat) \<Rightarrow> move list \<Rightarrow> move list" where
  "bodyPassSnapshot ps occ byId ms =
     map (\<lambda>m. if dead m then m
              else case occ (posKey (nextHead m)) of
                     None \<Rightarrow> m
                   | Some (opid, oindex) \<Rightarrow>
                       if occupantWillVacate ps byId ms opid oindex then m else kill Body m) ms"

text \<open>A cell of the grid: integer coordinates within \<open>[0, columns) \<times> [0, rows)\<close>.\<close>

fun inGrid :: "pos \<Rightarrow> bool" where
  "inGrid (Num x, Num y) = (0 \<le> x \<and> x < GRID_COLS \<and> 0 \<le> y \<and> y < GRID_ROWS)"
| "inGrid _ = False"

text \<open>Segment \<open>i\<close> of a body laid out behind the head \<open>(hx, hy)\<close>, against the facing \<open>d\<close>.\<close>

definition segmentAt :: "dir \<Rightarrow> int \<Rightarrow> int \<Rightarrow> nat \<Rightarrow> pos" where
  "segmentAt d hx hy i = (Num (hx - dx d * int i), Num (hy - dy d * int i))"

text \<open>
  The facing direction and head cell that attempt number \<open>k\<close> of \<open>spawnPlayer\<close>
  draws from \<open>r\<close>: every attempt takes three random numbers, for the direction
  key, \<open>head.x\<close> and \<open>head.y\<close>.
\<close>

definition placement :: "rng \<Rightarrow> nat \<Rightarrow> dir \<times> int \<times> int" where
  "placement r k =
     (directionKeys ! nat (int (r (3 * k)) mod int (length directionKeys)),
      int (r (3 * k + 1)) mod GRID_COLS,
      int (r (3 * k + 2)) mod GRID_ROWS)"

text \<open>
  A placement is valid when each of its \<open>INITIAL_LENGTH\<close> cells is a cell of the
  grid that holds no food and no segment of an alive body.
\<close>

definition validPlacement :: "player list \<Rightarrow> pos list \<Rightarrow> dir \<times> int \<times> int \<Rightarrow> bool" where
  "validPlacement ps fs = (\<lambda>(d, hx, hy).
     list_all (\<lambda>i. inGrid (segmentAt d hx hy i)
                  \<and> segmentAt d hx hy i \<notin> set fs
                  \<and> list_all (\<lambda>q. segmentAt d hx hy i \<notin> set (snake q)) (filter alive ps))
       [0..<INITIAL_LENGTH])"

text \<open>The key of the \<open>k\<close>-th candidate cell that \<open>spawnFood\<close> draws from \<open>r\<close>.\<close>

definition candidate :: "rng \<Rightarrow> nat \<Rightarrow> key" where
  "candidate r k = Key (Num (int (r (2 * k)) mod GRID_COLS)) (Num (int (r (2 * k + 1)) mod GRID_ROWS))"

text \<open>Every cell of the grid is in the occupied set: no free cell exists.\<close>

definition gridSaturated :: "player list \<Rightarrow> pos list \<Rightarrow> bool" where
  "gridSaturated ps fs =
     (\<forall>x \<in> {0..<GRID_COLS}. \<forall>y \<in> {0..<GRID_ROWS}. Key (Num x) (Num y) \<in> getOccupiedSet ps fs)"

text \<open>
  What one iteration of the commit loop does to the player object of the move
  (see \<open>commitMove_eq\<close>).
\<close>

definition commitPlayer :: "move \<Rightarrow> player \<Rightarrow> player" where
  "commitPlayer m p =
     (if dead m then killPlayer p
      else if willEat m
      then p\<lparr>direction := Some (mdirection m), pendingDirection := Some (mdirection m),
             snake := nextHead m # snake p, score := score p + 1,
             best := max (best p) (int (length (nextHead m # snake p)))\<rparr>
      else p\<lparr>direction := Some (mdirection m), pendingDirection := Some (mdirection m),
             snake := butlast (nextHead m # snake p)\<rparr>)"

text \<open>The next head that \<open>createMove\<close> plans for a participant with a body.\<close>

definition plannedHead :: "player \<Rightarrow> pos" where
  "plannedHead p =
     (js_add (fst (hd (snake p))) (dir_x (chooseDirection p)),
      js_add (snd (hd (snake p))) (dir_y (chooseDirection p)))"

text \<open>The part of a move that the three passes never touch.\<close>

definition plan :: "move \<Rightarrow> nat \<times> jsdir \<times> pos \<times> bool" where
  "plan m = (mplayer m, mdirection m, nextHead m, willEat m)"

text \<open>Invariant 5 of the specification, for one participant, with a score that is not negative.\<close>

definition lengthLaw :: "player \<Rightarrow> bool" where
  "lengthLaw p = (alive p \<longrightarrow> 0 \<le> score p \<and> int (length (snake p)) = score p + int INITIAL_LENGTH)"

text \<open>A direction field that holds no inherited member: \<open>null\<close> or one of the four directions.\<close>

definition knownDir :: "jsdir option \<Rightarrow> bool" where
  "knownDir d = (case d of None \<Rightarrow> True | Some (Known _) \<Rightarrow> True | Some (Inherited _) \<Rightarrow> False)"

text \<open>
  Invariants 1 and 2 of the specification for one participant (a body inside the
  grid without a repeated cell), with the two facts they rest on: an alive
  participant has a body, and its directions are directions.
\<close>

definition soundBody :: "player \<Rightarrow> bool" where
  "soundBody p =
     (alive p \<longrightarrow> snake p \<noteq> [] \<and> list_all inGrid (snake p) \<and> distinct (snake p)
                 \<and> knownDir (direction p) \<and> knownDir (pendingDirection p))"

text \<open>No cell belongs to the bodies of two alive participants.\<close>

definition disjointBodies :: "player list \<Rightarrow> bool" where
  "disjointBodies ps =
     (\<forall>i<length ps. \<forall>j<length ps. i \<noteq> j \<and> alive (ps ! i) \<and> alive (ps ! j)
         \<longrightarrow> set (snake (ps ! i)) \<inter> set (snake (ps ! j)) = {})"

text \<open>The players table has one entry per id, of sound and pairwise disjoint bodies.\<close>

definition wellFormed :: "world \<Rightarrow> bool" where
  "wellFormed w =
     (distinct (map pid (players w)) \<and> list_all soundBody (players w) \<and> disjointBodies (players w))"

subsection \<open>Example worlds\<close>

definition cells :: "(int \<times> int) list \<Rightarrow> pos list" where
  "cells xs = map (\<lambda>(a, b). (Num a, Num b)) xs"

text \<open>An alive participant with the given body, last committed direction and buffered direction.\<close>

definition example_player :: "string \<Rightarrow> pos list \<Rightarrow> dir \<Rightarrow> dir \<Rightarrow> player" where
  "example_player i body facing pending =
     \<lparr>pid = i, pname = ''SYS100'', color = ''#00ff41'', alive = True, snake = body,
      direction = Some (Known facing), pendingDirection = Some (Known pending), score = 0, best = 4,
      deaths = 0, createdAt = 0, lastInputAt = 0, spawnedAt = Some 0\<rparr>"

text \<open>A participant as \<open>spawnPlayer\<close> leaves it: four cells behind the head, facing right.\<close>

definition stretched :: "string \<Rightarrow> int \<Rightarrow> int \<Rightarrow> player" where
  "stretched i hx hy =
     example_player i (cells [(hx, hy), (hx - 1, hy), (hx - 2, hy), (hx - 3, hy)]) Right Right"

definition solo_player :: player where
  "solo_player = stretched ''s1'' 4 4"

text \<open>
  Four snakes around the cell (10, 10), which holds the tail of \<open>snake_B\<close>:
  \<open>snake_S1\<close>, \<open>snake_S2\<close> and \<open>snake_M\<close> all head into it, and \<open>snake_B\<close>
  heads into the second segment of \<open>snake_M\<close>.
\<close>

definition snake_S1 :: player where
  "snake_S1 = example_player ''s1'' (cells [(9, 10), (8, 10), (7, 10), (6, 10)]) Right Right"
definition snake_S2 :: player where
  "snake_S2 = example_player ''s2'' (cells [(10, 9), (10, 8), (10, 7), (10, 6)]) Down Down"
definition snake_B :: player where
  "snake_B = example_player ''b'' (cells [(11, 12), (10, 12), (10, 11), (10, 10)]) Right Up"
definition snake_M :: player where
  "snake_M = example_player ''m'' (cells [(11, 10), (11, 11), (12, 11), (13, 11)]) Up Left"

definition duel :: "player list" where "duel = [snake_M, snake_B]"
definition duel_moves :: "move list" where "duel_moves = the (planMoves [] duel)"

text \<open>The same two snakes in the other table order.\<close>

definition duel_rev :: "player list" where "duel_rev = [snake_B, snake_M]"
definition duel_rev_moves :: "move list" where "duel_rev_moves = the (planMoves [] duel_rev)"

definition crossing :: "player list" where "crossing = [snake_S1, snake_S2, snake_B, snake_M]"
definition crossing_moves :: "move list" where "crossing_moves = the (planMoves [] crossing)"

text \<open>Two snakes in a row: the first follows the tail of the second, which runs into the right wall.\<close>

definition convoy :: "player list" where "convoy = [stretched ''f'' 35 10, stretched ''l'' 39 10]"
definition convoy_moves :: "move list" where "convoy_moves = the (planMoves [] convoy)"

text \<open>The same two snakes in the open: both moves survive.\<close>

definition parade :: "player list" where "parade = [stretched ''f'' 6 10, stretched ''l'' 10 10]"
definition parade_moves :: "move list" where "parade_moves = the (planMoves [] parade)"

text \<open>A participant as \<open>createPlayer\<close> and \<open>killPlayer\<close> leave it: not alive, no body.\<close>

definition unjoined :: "string \<Rightarrow> player" where
  "unjoined i =
     \<lparr>pid = i, pname = ''SYS100'', color = ''#00ff41'', alive = False, snake = [],
      direction = None, pendingDirection = None, score = 0, best = 4,
      deaths = 0, createdAt = 0, lastInputAt = 0, spawnedAt = None\<rparr>"

text \<open>The random sequence 0, 1, 2, ...\<close>

definition rng_count :: rng where
  "rng_count = (\<lambda>n. n)"

text \<open>A random sequence whose first three numbers are 1 and all later ones 7.\<close>

definition rng_late :: rng where
  "rng_late = (\<lambda>n. if n < 3 then 1 else 7)"

text \<open>One snake at (4, 4) facing right, with food on the cell in front of it.\<close>

definition feast :: world where
  "feast = \<lparr>players = [stretched ''s1'' 4 4],
             foods = cells [(5, 4), (20, 20), (21, 20), (22, 20), (23, 20)]\<rparr>"

text \<open>
  Two snakes with the food far away: the first has free cells ahead, the second
  stands with its head in the last column, facing the wall.
\<close>

definition cruise :: world where
  "cruise = \<lparr>players = [stretched ''s1'' 4 4, stretched ''s2'' 39 8],
              foods = cells [(20, 20), (21, 20), (22, 20), (23, 20), (24, 20)]\<rparr>"

text \<open>
  The same snake after its client has sent the input \<open>{direction: "constructor"}\<close>;
  the food is far away.
\<close>

definition hijacked :: world where
  "hijacked = \<lparr>players = handleInput [solo_player] ''s1'' ''constructor'' 7,
                foods = cells [(20, 20), (21, 20), (22, 20), (23, 20), (24, 20)]\<rparr>"

text \<open>The alive flag, the score and the body of every participant after a tick.\<close>

definition bodiesAfter :: "(world \<times> rng) option \<Rightarrow> (bool \<times> int \<times> pos list) list option" where
  "bodiesAfter res = map_option (\<lambda>(w', r'). map (\<lambda>p. (alive p, score p, snake p)) (players w')) res"

section \<open>Properties\<close>

subsection \<open>Input handling\<close>

text \<open>
  \<open>handleInput\<close> changes nothing for an unknown id, for a participant that is
  not alive, for a key under which \<open>DIRECTIONS\<close> finds nothing, and for the exact
  opposite of the current direction; otherwise it buffers what the lookup found
  and stamps the input time.
\<close>

lemma findIndex_Some: "findIndex P xs = Some i \<Longrightarrow> i < length xs \<and> P (xs ! i)"
  by (induction xs arbitrary: i) (auto split: if_splits)

lemma findIndex_first:
  "i < length xs \<Longrightarrow> P (xs ! i) \<Longrightarrow> (\<forall>j<i. \<not> P (xs ! j)) \<Longrightarrow> findIndex P xs = Some i"
proof (induction xs arbitrary: i)
  case Nil
  then show ?case by simp
next
  case (Cons x xs)
  show ?case
  proof (cases i)
    case 0
    with Cons.prems show ?thesis by simp
  next
    case (Suc k)
    with Cons.prems have "\<not> P x" by auto
    moreover from Cons.prems Suc have "findIndex P xs = Some k"
      by (intro Cons.IH) auto
    ultimately show ?thesis using Suc by simp
  qed
qed

lemma handleInput_unknown_id: "players_get ps sid = None \<Longrightarrow> handleInput ps sid k now = ps"
  by (simp add: handleInput_def)

lemma handleInput_not_alive:
  "players_get ps sid = Some i \<Longrightarrow> \<not> alive (ps ! i) \<Longrightarrow> handleInput ps sid k now = ps"
  by (simp add: handleInput_def)

lemma handleInput_no_such_member: "DIRECTIONS k = None \<Longrightarrow> handleInput ps sid k now = ps"
  by (simp add: handleInput_def Let_def split: option.splits)

lemma handleInput_opposite:
  "players_get ps sid = Some i \<Longrightarrow> direction (ps ! i) = Some d \<Longrightarrow> DIRECTIONS k = Some nd \<Longrightarrow>
   isOpposite d nd \<Longrightarrow> handleInput ps sid k now = ps"
  by (simp add: handleInput_def Let_def)

lemma handleInput_accepted:
  "players_get ps sid = Some i \<Longrightarrow> alive (ps ! i) \<Longrightarrow> DIRECTIONS k = Some nd \<Longrightarrow>
   (\<forall>d. direction (ps ! i) = Some d \<longrightarrow> \<not> isOpposite d nd) \<Longrightarrow>
   handleInput ps sid k now = ps[i := (ps ! i)\<lparr>pendingDirection := Some nd, lastInputAt := now\<rparr>]"
  by (simp add: handleInput_def Let_def split: option.splits)

lemma DIRECTIONS_None_iff:
  "(DIRECTIONS k = None) = (k \<notin> {''up'', ''right'', ''down'', ''left''} \<union> set Object_prototype_keys)"
  by (simp add: DIRECTIONS_def)

lemma isOpposite_Known: "isOpposite (Known a) (Known b) = (dx a + dx b = 0 \<and> dy a + dy b = 0)"
  by (simp add: isOpposite_def)

lemma isOpposite_Inherited [simp]: "\<not> isOpposite d (Inherited k)" "\<not> isOpposite (Inherited k) d"
  by (cases d; simp add: isOpposite_def)+

text \<open>
  C10. The known-direction check of \<open>handleInput\<close> is \<open>if (!nextDirection) return\<close>
  on \<open>DIRECTIONS[directionKey]\<close>. For the key \<open>constructor\<close>, which is none of the
  four directions, the lookup finds the inherited member, the check passes, the
  opposite test is false, and the participant's pending direction is overwritten
  with a value that is not a direction.
\<close>

theorem handleInput_inherited_key_sets_pending:
  "map pendingDirection [solo_player] = [Some (Known Right)] \<and>
   map pendingDirection (handleInput [solo_player] ''s1'' ''constructor'' 7)
     = [Some (Inherited ''constructor'')]"
  by (simp add: handleInput_def players_get_def solo_player_def stretched_def cells_def
      example_player_def DIRECTIONS_def Object_prototype_keys_def isOpposite_def)

subsection \<open>The head pass\<close>

lemma kill_fields [simp]:
  "dead (kill why m)" "willEat (kill why m) = willEat m" "reason (kill why m) = Some why"
  "mplayer (kill why m) = mplayer m" "mdirection (kill why m) = mdirection m"
  by (simp_all add: kill_def)

lemma nextHead_kill [simp]: "nextHead (kill why m) = nextHead m"
  by (simp add: kill_def)

text \<open>
  The count that \<open>headOccupancy\<close> stores under a key is the number of surviving
  moves with that key, and its keys are distinct; so the two nested loops of the
  head pass mark exactly the moves whose key has two or more surviving claimants.
\<close>

lemma countOf_bump: "countOf (bump k occ) k' = countOf occ k' + (if k = k' then 1 else 0)"
  by (induction occ) (auto simp: countOf_def)

lemma keys_bump: "fst ` set (bump k occ) = insert k (fst ` set occ)"
  by (induction occ) (force split: if_splits)+

lemma distinct_bump: "distinct (map fst occ) \<Longrightarrow> distinct (map fst (bump k occ))"
  by (induction occ) (auto simp: keys_bump)

lemma fold_bump_count:
  "countOf (fold (\<lambda>m occ. if dead m then occ else bump (posKey (nextHead m)) occ) ms acc) k
     = countOf acc k + claimants ms k"
  by (induction ms arbitrary: acc) (auto simp: claimants_def countOf_bump)

lemma fold_bump_distinct:
  "distinct (map fst acc) \<Longrightarrow>
   distinct (map fst (fold (\<lambda>m occ. if dead m then occ else bump (posKey (nextHead m)) occ) ms acc))"
  by (induction ms arbitrary: acc) (auto simp: distinct_bump)

lemma headOccupancy_count: "countOf (headOccupancy ms) k = claimants ms k"
  by (simp add: headOccupancy_def fold_bump_count) (simp add: countOf_def)

lemma headOccupancy_distinct: "distinct (map fst (headOccupancy ms))"
  by (simp add: headOccupancy_def fold_bump_distinct)

lemma countOf_Cons: "countOf ((k, c) # es) k' = (if k = k' then c else countOf es k')"
  by (simp add: countOf_def)

lemma countOf_notin: "k \<notin> fst ` set es \<Longrightarrow> countOf es k = 0"
  by (simp add: countOf_def map_of_eq_None_iff[THEN iffD2])

lemma fold_killClaimants:
  "distinct (map fst es) \<Longrightarrow>
   fold (\<lambda>(k, count) ms'. if count < 2 then ms' else killClaimants k ms') es ms
     = map (\<lambda>m. if 2 \<le> countOf es (posKey (nextHead m)) then kill Head m else m) ms"
proof (induction es arbitrary: ms)
  case Nil
  then show ?case by (simp add: countOf_def)
next
  case (Cons e es)
  obtain k c where e: "e = (k, c)" by (cases e)
  from Cons.prems e have notin: "k \<notin> fst ` set es" and dist: "distinct (map fst es)" by auto
  have zero: "countOf es k = 0" by (rule countOf_notin[OF notin])
  show ?case
    using zero by (auto simp: e Cons.IH[OF dist] killClaimants_def countOf_Cons kill_def)
qed

lemma headPass_char:
  "headPass ms = map (\<lambda>m. if 2 \<le> claimants ms (posKey (nextHead m)) then kill Head m else m) ms"
  by (simp add: headPass_def fold_killClaimants[OF headOccupancy_distinct] headOccupancy_count)

lemma headPass_nth:
  "i < length ms \<Longrightarrow>
   headPass ms ! i = (if 2 \<le> claimants ms (posKey (nextHead (ms ! i))) then kill Head (ms ! i) else ms ! i)"
  by (simp add: headPass_char)

lemma length_headPass [simp]: "length (headPass ms) = length ms"
  by (simp add: headPass_char)

lemma length_wallPass [simp]: "length (wallPass ms) = length ms"
  by (simp add: wallPass_def)

lemma wallPass_nth:
  "i < length ms \<Longrightarrow>
   wallPass ms ! i = (if dead (ms ! i) then ms ! i
                      else if outOfGrid (nextHead (ms ! i)) then kill Wall (ms ! i) else ms ! i)"
  by (simp add: wallPass_def)

lemma two_hits:
  assumes "i < length xs" "j < length xs" "i \<noteq> j" "P (xs ! i)" "P (xs ! j)"
  shows "2 \<le> length (filter P xs)"
proof -
  have "{i, j} \<subseteq> {k. k < length xs \<and> P (xs ! k)}" using assms by auto
  then have "card {i, j} \<le> card {k. k < length xs \<and> P (xs ! k)}"
    by (intro card_mono) auto
  with assms(3) show ?thesis by (simp add: length_filter_conv_card)
qed

lemma hits_two:
  assumes "2 \<le> length (filter P xs)"
  shows "\<exists>i j. i < length xs \<and> j < length xs \<and> i \<noteq> j \<and> P (xs ! i) \<and> P (xs ! j)"
proof -
  let ?A = "{k. k < length xs \<and> P (xs ! k)}"
  have two: "2 \<le> card ?A" using assms by (simp add: length_filter_conv_card)
  have fin: "finite ?A" by simp
  from two have "0 < card ?A" by linarith
  then have "?A \<noteq> {}" by (metis card_gt_0_iff)
  then obtain i where i: "i \<in> ?A" by blast
  from two fin i have "1 \<le> card (?A - {i})" by (simp add: card_Diff_singleton)
  then have "?A - {i} \<noteq> {}" by (metis card.empty not_one_le_zero)
  then obtain j where "j \<in> ?A" "j \<noteq> i" by blast
  with i show ?thesis by blast
qed

lemma headPass_dead: "i < length ms \<Longrightarrow> dead (ms ! i) \<Longrightarrow> dead (headPass ms ! i)"
  by (simp add: headPass_nth)

lemma claimants_zero:
  "(\<forall>m \<in> set ms. posKey (nextHead m) = k \<longrightarrow> dead m) \<Longrightarrow> claimants ms k = 0"
  by (auto simp: claimants_def filter_empty_conv)

lemma headPass_survivors_distinct:
  assumes "a < length ms" "b < length ms" "a \<noteq> b"
      and "\<not> dead (headPass ms ! a)" "\<not> dead (headPass ms ! b)"
  shows "posKey (nextHead (ms ! a)) \<noteq> posKey (nextHead (ms ! b))"
proof
  assume eq: "posKey (nextHead (ms ! a)) = posKey (nextHead (ms ! b))"
  have sa: "\<not> dead (ms ! a) \<and> claimants ms (posKey (nextHead (ms ! a))) < 2"
    using assms(1,4) by (auto simp: headPass_nth split: if_splits)
  have sb: "\<not> dead (ms ! b)"
    using assms(2,5) by (auto simp: headPass_nth split: if_splits)
  have "2 \<le> claimants ms (posKey (nextHead (ms ! a)))"
    unfolding claimants_def using sa sb eq by (intro two_hits[OF assms(1,2,3)]) auto
  with sa show False by simp
qed

subsection \<open>The body pass\<close>

lemma bodyStep_collapsed:
  "bodyStep ps occ byId i ms =
     (if dead (ms ! i) then ms
      else case occ (posKey (nextHead (ms ! i))) of
             None \<Rightarrow> ms
           | Some (opid, oindex) \<Rightarrow>
               if occupantWillVacate ps byId ms opid oindex then ms
               else ms[i := kill Body (ms ! i)])"
  by (auto simp: bodyStep_def Let_def split: option.splits)

lemma length_bodyStep [simp]: "length (bodyStep ps occ byId i ms) = length ms"
  by (simp add: bodyStep_collapsed split: option.splits)

lemma bodyStep_other: "j \<noteq> i \<Longrightarrow> bodyStep ps occ byId i ms ! j = ms ! j"
  by (simp add: bodyStep_collapsed split: option.splits)

lemma length_bodyPassIn [simp]: "length (bodyPassIn order ps occ byId ms) = length ms"
  unfolding bodyPassIn_def by (induction order arbitrary: ms) simp_all

lemma bodyPassIn_other: "j \<notin> set order \<Longrightarrow> bodyPassIn order ps occ byId ms ! j = ms ! j"
  unfolding bodyPassIn_def by (induction order arbitrary: ms) (simp_all add: bodyStep_other)

lemma bodyPassIn_append:
  "bodyPassIn (xs @ ys) ps occ byId ms = bodyPassIn ys ps occ byId (bodyPassIn xs ps occ byId ms)"
  by (simp add: bodyPassIn_def)

lemma bodyPassIn_Cons:
  "bodyPassIn (i # ys) ps occ byId ms = bodyPassIn ys ps occ byId (bodyStep ps occ byId i ms)"
  by (simp add: bodyPassIn_def)

lemma length_bodyPass [simp]: "length (bodyPass ps occ byId ms) = length ms"
  by (simp add: bodyPass_def)

lemma length_resolve [simp]: "length (resolve ps ms) = length ms"
  by (simp add: resolve_def Let_def)

lemma upt_split_at: "i < n \<Longrightarrow> [0..<n] = [0..<i] @ i # [Suc i..<n]"
  by (metis le_add1 less_imp_add_positive upt_add_eq_append upt_conv_Cons plus_nat.add_0 less_or_eq_imp_le)

lemma bodyPass_at:
  assumes "i < length ms"
  shows "bodyPass ps occ byId ms ! i
           = bodyStep ps occ byId i (bodyPassIn [0..<i] ps occ byId ms) ! i"
proof -
  have "bodyPass ps occ byId ms
          = bodyPassIn [Suc i..<length ms] ps occ byId
              (bodyStep ps occ byId i (bodyPassIn [0..<i] ps occ byId ms))"
    unfolding bodyPass_def
    by (subst upt_split_at[OF assms]) (simp only: bodyPassIn_append bodyPassIn_Cons)
  then show ?thesis
    by (simp add: bodyPassIn_other)
qed

lemma bodyPass_earlier:
  assumes "j < i" "i \<le> length ms"
  shows "bodyPassIn [0..<i] ps occ byId ms ! j = bodyPass ps occ byId ms ! j"
proof -
  have "[0..<length ms] = [0..<i] @ [i..<length ms]"
    using assms by (metis le0 le_add_diff_inverse upt_add_eq_append)
  then have "bodyPass ps occ byId ms
          = bodyPassIn [i..<length ms] ps occ byId (bodyPassIn [0..<i] ps occ byId ms)"
    unfolding bodyPass_def by (simp only: bodyPassIn_append)
  then show ?thesis
    using assms by (simp add: bodyPassIn_other)
qed

lemma bodyPassIn_dead:
  "dead (ms ! i) \<Longrightarrow> bodyPassIn order ps occ byId ms ! i = ms ! i"
  unfolding bodyPassIn_def
proof (induction order arbitrary: ms)
  case Nil
  then show ?case by simp
next
  case (Cons j order)
  have "bodyStep ps occ byId j ms ! i = ms ! i"
    using Cons.prems by (cases "j = i") (simp_all add: bodyStep_collapsed split: option.splits)
  with Cons show ?case by simp
qed

lemma length_bodyPassSnapshot [simp]: "length (bodyPassSnapshot ps occ byId ms) = length ms"
  by (simp add: bodyPassSnapshot_def)

lemma bodyPassSnapshot_nth:
  "i < length ms \<Longrightarrow>
   bodyPassSnapshot ps occ byId ms ! i =
     (if dead (ms ! i) then ms ! i
      else case occ (posKey (nextHead (ms ! i))) of
             None \<Rightarrow> ms ! i
           | Some (opid, oindex) \<Rightarrow>
               if occupantWillVacate ps byId ms opid oindex then ms ! i else kill Body (ms ! i))"
  by (simp add: bodyPassSnapshot_def)

lemma bodyStep_settled:
  fixes ms :: "move list" and ps occ byId
  defines "S \<equiv> bodyPassSnapshot ps occ byId ms"
  assumes range: "\<forall>k j. byId k = Some j \<longrightarrow> j < length ms"
      and settled: "bodyPassSnapshot ps occ byId S = S"
      and len: "length ms' = length ms"
      and between: "\<forall>j<length ms. ms' ! j = ms ! j \<or> ms' ! j = S ! j"
      and i: "i < length ms"
  shows "bodyStep ps occ byId i ms' = ms'[i := S ! i]"
proof -
  have Snth: "S ! j = (if dead (ms ! j) then ms ! j
      else case occ (posKey (nextHead (ms ! j))) of
             None \<Rightarrow> ms ! j
           | Some (opid, oindex) \<Rightarrow>
               if occupantWillVacate ps byId ms opid oindex then ms ! j else kill Body (ms ! j))"
    if "j < length ms" for j
    using that by (simp add: S_def bodyPassSnapshot_nth)
  have S_eat: "willEat (S ! j) = willEat (ms ! j)" and S_dead: "dead (ms ! j) \<Longrightarrow> dead (S ! j)"
    if "j < length ms" for j
    using that by (auto simp: Snth split: option.splits)
  have choice: "ms' ! j = ms ! j \<or> ms' ! j = S ! j" if "j < length ms" for j
    using that between by blast
  have m'_eat: "willEat (ms' ! j) = willEat (ms ! j)" if "j < length ms" for j
    using choice[OF that] S_eat[OF that] by auto
  have m'_dead: "dead (ms ! j) \<Longrightarrow> dead (ms' ! j)" and m'_dead2: "dead (ms' ! j) \<Longrightarrow> dead (S ! j)"
    if "j < length ms" for j
    using choice[OF that] S_dead[OF that] by auto
  have vac_down: "occupantWillVacate ps byId ms' a b \<Longrightarrow> occupantWillVacate ps byId ms a b"
    and vac_up: "occupantWillVacate ps byId S a b \<Longrightarrow> occupantWillVacate ps byId ms' a b" for a b
    using range m'_eat m'_dead m'_dead2 S_eat
    by (auto simp: occupantWillVacate_def split: option.splits)
  have lenS: "length S = length ms" by (simp add: S_def)
  have SS: "S ! i = (if dead (S ! i) then S ! i
      else case occ (posKey (nextHead (S ! i))) of
             None \<Rightarrow> S ! i
           | Some (opid, oindex) \<Rightarrow>
               if occupantWillVacate ps byId S opid oindex then S ! i else kill Body (S ! i))"
    using bodyPassSnapshot_nth[of i S ps occ byId] i lenS settled by simp
  show ?thesis
  proof (cases "dead (ms' ! i)")
    case True
    then have "S ! i = ms' ! i"
      using choice[OF i] S_dead[OF i] by (auto simp: Snth[OF i])
    with True show ?thesis by (simp add: bodyStep_collapsed)
  next
    case False
    then have alive0: "\<not> dead (ms ! i)"
      using m'_dead[OF i] by blast
    have same: "ms' ! i = ms ! i"
      using choice[OF i] False alive0 by (auto simp: Snth[OF i] split: option.splits if_splits)
    have upd: "ms'[i := ms ! i] = ms'"
      using same by (metis list_update_id)
    show ?thesis
    proof (cases "occ (posKey (nextHead (ms ! i)))")
      case None
      with False same alive0 show ?thesis
        by (simp add: bodyStep_collapsed Snth[OF i] upd)
    next
      case (Some oc)
      obtain opid oindex where o: "oc = (opid, oindex)" by (cases oc)
      show ?thesis
      proof (cases "occupantWillVacate ps byId ms opid oindex")
        case True
        then have Si: "S ! i = ms ! i" using alive0 Some o by (simp add: Snth[OF i])
        have "occupantWillVacate ps byId S opid oindex"
        proof (rule ccontr)
          assume "\<not> occupantWillVacate ps byId S opid oindex"
          with SS Si alive0 Some o have "S ! i = kill Body (S ! i)" by simp
          then have "dead (S ! i)" by (metis kill_fields(1))
          with Si alive0 show False by simp
        qed
        then have "occupantWillVacate ps byId ms' opid oindex" by (rule vac_up)
        with False same Some o Si show ?thesis
          by (simp add: bodyStep_collapsed upd)
      next
        case no: False
        then have "\<not> occupantWillVacate ps byId ms' opid oindex" using vac_down by blast
        with False same Some o no alive0 show ?thesis
          by (simp add: bodyStep_collapsed Snth[OF i])
      qed
    qed
  qed
qed

lemma fold_update_nth:
  "j < length xs \<Longrightarrow>
   fold (\<lambda>i ys. ys[i := f i]) order xs ! j = (if j \<in> set order then f j else xs ! j)"
  by (induction order arbitrary: xs) (auto simp: nth_list_update)

lemma length_fold_update [simp]: "length (fold (\<lambda>i ys. ys[i := f i]) order xs) = length xs"
  by (induction order arbitrary: xs) auto

lemma bodyPassIn_settled:
  fixes ms :: "move list" and ps occ byId
  defines "S \<equiv> bodyPassSnapshot ps occ byId ms"
  assumes range: "\<forall>k j. byId k = Some j \<longrightarrow> j < length ms"
      and settled: "bodyPassSnapshot ps occ byId S = S"
      and len: "length ms' = length ms"
      and between: "\<forall>j<length ms. ms' ! j = ms ! j \<or> ms' ! j = S ! j"
      and order: "set order \<subseteq> {0..<length ms}"
  shows "bodyPassIn order ps occ byId ms' = fold (\<lambda>i ys. ys[i := S ! i]) order ms'"
  using len between order
proof (induction order arbitrary: ms')
  case Nil
  then show ?case by (simp add: bodyPassIn_def)
next
  case (Cons i order)
  have i: "i < length ms" using Cons.prems(3) by simp
  have step: "bodyStep ps occ byId i ms' = ms'[i := S ! i]"
    unfolding S_def
    by (rule bodyStep_settled[OF range settled[unfolded S_def] Cons.prems(1) Cons.prems(2)[unfolded S_def] i])
  have "bodyPassIn order ps occ byId (ms'[i := S ! i]) = fold (\<lambda>i ys. ys[i := S ! i]) order (ms'[i := S ! i])"
    using Cons.prems by (intro Cons.IH) (auto simp: nth_list_update)
  then show ?case
    by (simp add: bodyPassIn_Cons step)
qed

lemma moveById_range_aux:
  "\<forall>k j. acc k = Some j \<longrightarrow> j < n \<Longrightarrow> set js \<subseteq> {0..<n} \<Longrightarrow>
   fold (\<lambda>j m. m(f j \<mapsto> j)) js acc k = Some j \<Longrightarrow> j < n"
proof (induction js arbitrary: acc)
  case Nil
  then show ?case by simp
next
  case (Cons a js)
  have "\<forall>k j. (acc(f a \<mapsto> a)) k = Some j \<longrightarrow> j < n"
    using Cons.prems(1,2) by auto
  then show ?case
    using Cons.IH[of "acc(f a \<mapsto> a)"] Cons.prems(2,3) by simp
qed

lemma moveById_range: "moveById ps ms k = Some j \<Longrightarrow> j < length ms"
  unfolding moveById_def
  by (rule moveById_range_aux[where acc = Map.empty and js = "[0..<length ms]"]) auto

lemma moveById_sound_aux:
  "fold (\<lambda>j m. m(f j \<mapsto> j)) js acc k = Some j \<Longrightarrow> acc k = Some j \<or> (j \<in> set js \<and> f j = k)"
proof (induction js arbitrary: acc)
  case Nil
  then show ?case by simp
next
  case (Cons a js)
  from Cons.IH[of "acc(f a \<mapsto> a)"] Cons.prems show ?case
    by (auto split: if_splits)
qed

lemma moveById_sound:
  "moveById ps ms k = Some j \<Longrightarrow> j < length ms \<and> pid (ps ! mplayer (ms ! j)) = k"
  unfolding moveById_def
  using moveById_sound_aux[of "\<lambda>j. pid (ps ! mplayer (ms ! j))" "[0..<length ms]" Map.empty k j]
  by simp

subsection \<open>What the passes leave untouched\<close>

text \<open>
  The passes only ever set \<open>dead\<close> and \<open>reason\<close>: the plan of every move stays as
  \<open>createMove\<close> made it. A move that the wall pass kills stays dead with reason
  wall to the end, since every move into its cell is dead as well and the cell is
  never contested.
\<close>

lemma plan_kill [simp]: "plan (kill why m) = plan m"
  by (simp add: plan_def)

lemma plan_wallPass: "map plan (wallPass ms) = map plan ms"
  by (simp add: wallPass_def comp_def)

lemma map_update_same: "(map f xs)[i := f (xs ! i)] = map f xs"
  by (metis list_update_id map_update)

lemma plan_bodyStep: "map plan (bodyStep ps occ byId i ms) = map plan ms"
  by (simp add: bodyStep_collapsed map_update map_update_same split: option.splits)

lemma plan_bodyPassIn: "map plan (bodyPassIn order ps occ byId ms) = map plan ms"
  unfolding bodyPassIn_def by (induction order arbitrary: ms) (simp_all add: plan_bodyStep)

lemma plan_headPass: "map plan (headPass ms) = map plan ms"
  by (simp add: headPass_char comp_def)

lemma plan_resolve: "map plan (resolve ps ms) = map plan ms"
  by (simp add: resolve_def Let_def plan_headPass bodyPass_def plan_bodyPassIn plan_wallPass)

lemma plan_afterBody: "map plan (afterBody ps lm) = map plan lm"
  by (simp add: afterBody_def bodyPass_def plan_bodyPassIn plan_wallPass)

lemma length_afterBody [simp]: "length (afterBody ps lm) = length lm"
  by (simp add: afterBody_def)

lemma plan_nth: "map plan xs = map plan ys \<Longrightarrow> t < length ys \<Longrightarrow> plan (xs ! t) = plan (ys ! t)"
  by (metis length_map nth_map)

lemma wallPass_plan_nth:
  "i < length ms \<Longrightarrow> nextHead (wallPass ms ! i) = nextHead (ms ! i) \<and> willEat (wallPass ms ! i) = willEat (ms ! i)"
  using plan_nth[OF plan_wallPass, of i ms] by (simp add: plan_def)

lemma posKey_inj [simp]: "(posKey a = posKey b) = (a = b)"
  by (cases a; cases b) simp

lemma inj_posKey: "inj posKey"
  by (rule injI) simp

lemma resolve_wall_reason_kept:
  assumes fresh: "\<forall>m \<in> set ms. \<not> dead m" and i: "i < length ms" and out: "outOfGrid (nextHead (ms ! i))"
  shows "resolve ps ms ! i = kill Wall (ms ! i)"
proof -
  let ?occ = "buildBodyOccupancy ps" and ?byId = "moveById ps ms"
  let ?w = "wallPass ms"
  let ?b = "bodyPass ps ?occ ?byId ?w"
  have wi: "?w ! i = kill Wall (ms ! i)"
    using fresh i out by (simp add: wallPass_nth)
  have bi: "?b ! i = kill Wall (ms ! i)"
    using wi by (simp add: bodyPass_def bodyPassIn_dead)
  have "dead m" if "m \<in> set ?b" "posKey (nextHead m) = posKey (nextHead (ms ! i))" for m
  proof -
    from that(1) obtain j where j: "j < length ms" and m: "m = ?b ! j"
      by (auto simp: in_set_conv_nth)
    have pl: "plan (?b ! j) = plan (ms ! j)"
    proof -
      have "map plan ?b = map plan ms"
        by (simp add: bodyPass_def plan_bodyPassIn plan_wallPass)
      then show ?thesis using j by (metis length_map nth_map length_bodyPass length_wallPass)
    qed
    then have "nextHead (ms ! j) = nextHead (ms ! i)"
      using that(2) m by (simp add: plan_def)
    then have "?w ! j = kill Wall (ms ! j)"
      using fresh j out by (simp add: wallPass_nth)
    then have "?b ! j = kill Wall (ms ! j)"
      by (simp add: bodyPass_def bodyPassIn_dead)
    with m show ?thesis by simp
  qed
  then have "claimants ?b (posKey (nextHead (?b ! i))) = 0"
    using bi by (intro claimants_zero) simp
  then show ?thesis
    using i bi by (simp add: resolve_def Let_def headPass_nth)
qed

subsection \<open>The collision resolver\<close>







text \<open>
  C3. In the head pass, every surviving move whose cell is targeted by two or
  more surviving moves is marked dead with reason head, however many claimants
  there are, and a surviving move that is the only claimant of its cell is left
  as it is, alive.
\<close>

theorem head_pass_mutual_elimination:
  assumes "i < length ms" and "\<not> dead (ms ! i)"
  shows "(2 \<le> claimants ms (posKey (nextHead (ms ! i))) \<longrightarrow>
            headPass ms ! i = (ms ! i)\<lparr>dead := True, reason := Some Head\<rparr>)
       \<and> (claimants ms (posKey (nextHead (ms ! i))) = 1 \<longrightarrow> headPass ms ! i = ms ! i)
       \<and> 1 \<le> claimants ms (posKey (nextHead (ms ! i)))"
proof -
  have "ms ! i \<in> set (filter (\<lambda>m. \<not> dead m \<and> posKey (nextHead m) = posKey (nextHead (ms ! i))) ms)"
    using assms by simp
  then have "1 \<le> claimants ms (posKey (nextHead (ms ! i)))"
    unfolding claimants_def by (metis One_nat_def Suc_leI length_pos_if_in_set)
  then show ?thesis
    using assms(1) by (simp add: headPass_nth kill_def)
qed

theorem head_pass_mutual_elimination_witness:
  "0 < length (afterBody crossing crossing_moves) \<and> \<not> dead (afterBody crossing crossing_moves ! 0)
   \<and> claimants (afterBody crossing crossing_moves) (posKey (nextHead (afterBody crossing crossing_moves ! 0))) = 2
   \<and> resolve crossing crossing_moves ! 0 = (afterBody crossing crossing_moves ! 0)\<lparr>dead := True, reason := Some Head\<rparr>
   \<and> 0 < length (afterBody duel duel_moves) \<and> \<not> dead (afterBody duel duel_moves ! 0)
   \<and> claimants (afterBody duel duel_moves) (posKey (nextHead (afterBody duel duel_moves ! 0))) = 1
   \<and> resolve duel duel_moves ! 0 = afterBody duel duel_moves ! 0"
proof -
  have h1: "0 < length (afterBody crossing crossing_moves)" by code_simp
  have h2: "\<not> dead (afterBody crossing crossing_moves ! 0)" by code_simp
  have c: "claimants (afterBody crossing crossing_moves) (posKey (nextHead (afterBody crossing crossing_moves ! 0))) = 2"
    by code_simp
  have g1: "0 < length (afterBody duel duel_moves)" by code_simp
  have g2: "\<not> dead (afterBody duel duel_moves ! 0)" by code_simp
  have e: "claimants (afterBody duel duel_moves) (posKey (nextHead (afterBody duel duel_moves ! 0))) = 1"
    by code_simp
  have r: "resolve ps ms = headPass (afterBody ps ms)" for ps ms
    by (simp add: resolve_def afterBody_def)
  from head_pass_mutual_elimination[OF h1 h2] c
  have k: "resolve crossing crossing_moves ! 0 = (afterBody crossing crossing_moves ! 0)\<lparr>dead := True, reason := Some Head\<rparr>"
    by (simp add: r)
  from head_pass_mutual_elimination[OF g1 g2] e
  have s: "resolve duel duel_moves ! 0 = afterBody duel duel_moves ! 0"
    by (simp add: r)
  from h1 h2 c k g1 g2 e s show ?thesis by simp
qed

text \<open>
  C4. Once dead, a move is not reconsidered by a later pass. For the dead flag
  and for the reason wall this holds (\<open>bodyPassIn_dead\<close>, \<open>headPass_dead\<close>,
  \<open>resolve_wall_reason_kept\<close>). For the reason body the head pass does not keep
  to it: its inner loop marks every move whose key is contested, without the
  \<open>if (move.dead) return\<close> of the other loops. In the crossing the move of
  \<open>snake_M\<close> (the fourth) leaves the body pass dead with reason body, its cell
  is claimed by the two surviving moves of \<open>snake_S1\<close> and \<open>snake_S2\<close>, and the
  head pass rewrites its reason to head.
\<close>

theorem head_pass_rewrites_body_reason:
  "map dead (afterBody crossing crossing_moves) = [False, False, True, True]
   \<and> map reason (afterBody crossing crossing_moves) = [None, None, Some Body, Some Body]
   \<and> map (posKey \<circ> nextHead) (afterBody crossing crossing_moves)
        = [Key (Num 10) (Num 10), Key (Num 10) (Num 10), Key (Num 11) (Num 11), Key (Num 10) (Num 10)]
   \<and> map reason (resolve crossing crossing_moves) = [Some Head, Some Head, Some Body, Some Head]"
proof -
  have a: "map dead (afterBody crossing crossing_moves) = [False, False, True, True]" by code_simp
  have b: "map reason (afterBody crossing crossing_moves) = [None, None, Some Body, Some Body]" by code_simp
  have c: "map (posKey \<circ> nextHead) (afterBody crossing crossing_moves)
        = [Key (Num 10) (Num 10), Key (Num 10) (Num 10), Key (Num 11) (Num 11), Key (Num 10) (Num 10)]"
    by code_simp
  have d: "map reason (resolve crossing crossing_moves) = [Some Head, Some Head, Some Body, Some Head]"
    by code_simp
  from a b c d show ?thesis by simp
qed

text \<open>
  C7. After the three passes the moves that are still alive, the ones that are
  committed, target pairwise distinct cells; hence for every cell at most one
  committed move eats there, and two claimants of one food cell are never both
  committed.
\<close>

theorem resolve_survivors_target_distinct_cells:
  assumes "i < length liveMoves" and "j < length liveMoves" and "i \<noteq> j"
      and "\<not> dead (resolve ps liveMoves ! i)" and "\<not> dead (resolve ps liveMoves ! j)"
  shows "posKey (nextHead (resolve ps liveMoves ! i)) \<noteq> posKey (nextHead (resolve ps liveMoves ! j))
       \<and> nextHead (resolve ps liveMoves ! i) \<noteq> nextHead (resolve ps liveMoves ! j)
       \<and> (\<forall>k. length (filter (\<lambda>m. \<not> dead m \<and> willEat m \<and> posKey (nextHead m) = k) (resolve ps liveMoves)) \<le> 1)"
proof -
  define ms where "ms = afterBody ps liveMoves"
  have res: "resolve ps liveMoves = headPass ms"
    by (simp add: resolve_def ms_def afterBody_def)
  have len: "length ms = length liveMoves"
    by (simp add: ms_def afterBody_def)
  have survivor: "\<not> dead (ms ! a) \<and> claimants ms (posKey (nextHead (ms ! a))) < 2
                    \<and> headPass ms ! a = ms ! a"
    if "a < length ms" "\<not> dead (headPass ms ! a)" for a
    using that by (auto simp: headPass_nth split: if_splits)
  have distinct_keys: "posKey (nextHead (headPass ms ! a)) \<noteq> posKey (nextHead (headPass ms ! b))"
    if "a < length ms" "b < length ms" "a \<noteq> b" "\<not> dead (headPass ms ! a)" "\<not> dead (headPass ms ! b)" for a b
  proof
    assume eq: "posKey (nextHead (headPass ms ! a)) = posKey (nextHead (headPass ms ! b))"
    from survivor[OF that(1,4)] survivor[OF that(2,5)] eq
    have "2 \<le> claimants ms (posKey (nextHead (ms ! a)))"
      unfolding claimants_def
      by (intro two_hits[OF that(1,2,3)]) auto
    with survivor[OF that(1,4)] show False by simp
  qed
  have eaters: "length (filter (\<lambda>m. \<not> dead m \<and> willEat m \<and> posKey (nextHead m) = k) (headPass ms)) \<le> 1" for k
  proof (rule ccontr)
    assume "\<not> ?thesis"
    then have "2 \<le> length (filter (\<lambda>m. \<not> dead m \<and> willEat m \<and> posKey (nextHead m) = k) (headPass ms))"
      by simp
    from hits_two[OF this] obtain a b where
      "a < length ms" "b < length ms" "a \<noteq> b"
      "\<not> dead (headPass ms ! a)" "\<not> dead (headPass ms ! b)"
      "posKey (nextHead (headPass ms ! a)) = k" "posKey (nextHead (headPass ms ! b)) = k"
      by auto
    with distinct_keys show False by blast
  qed
  have keys: "posKey (nextHead (headPass ms ! i)) \<noteq> posKey (nextHead (headPass ms ! j))"
    using assms by (intro distinct_keys) (simp_all add: len res)
  then have "nextHead (headPass ms ! i) \<noteq> nextHead (headPass ms ! j)" by auto
  with keys eaters show ?thesis by (simp add: res)
qed

theorem resolve_survivors_witness:
  "(0::nat) < length parade_moves \<and> 1 < length parade_moves \<and> (0::nat) \<noteq> 1
   \<and> \<not> dead (resolve parade parade_moves ! 0) \<and> \<not> dead (resolve parade parade_moves ! 1)
   \<and> nextHead (resolve parade parade_moves ! 0) \<noteq> nextHead (resolve parade parade_moves ! 1)"
proof -
  have h1: "0 < length parade_moves" by code_simp
  have h2: "1 < length parade_moves" by code_simp
  have h3: "(0::nat) \<noteq> 1" by simp
  have h4: "\<not> dead (resolve parade parade_moves ! 0)" by code_simp
  have h5: "\<not> dead (resolve parade parade_moves ! 1)" by code_simp
  from resolve_survivors_target_distinct_cells[OF h1 h2 h3 h4 h5] h1 h2 h4 h5
  show ?thesis by simp
qed

subsection \<open>Spawning\<close>

lemma rng_drop_drop [simp]: "rng_drop a (rng_drop b r) = rng_drop (a + b) r"
  by (simp add: rng_drop_def fun_eq_iff ac_simps)

lemma rng_drop_0 [simp]: "rng_drop 0 r = r"
  by (simp add: rng_drop_def)

lemma randomInt_range:
  "0 < mx \<Longrightarrow> randomInt mx r = (v, r') \<Longrightarrow> 0 \<le> v \<and> v < mx \<and> r' = rng_drop 1 r"
  by (auto simp: randomInt_def)

lemma randomChoice_member:
  assumes "array \<noteq> []" and "randomChoice array r = (v, r')"
  shows "v \<in> set array \<and> r' = rng_drop 1 r"
proof -
  have "int (r 0) mod int (length array) < int (length array)"
    using assms(1) by (intro pos_mod_bound) simp
  moreover have "0 \<le> int (r 0) mod int (length array)"
    using assms(1) by (intro pos_mod_sign) simp
  ultimately have "nat (int (r 0) mod int (length array)) < length array"
    by (simp add: nat_less_iff)
  then show ?thesis
    using assms(2) by (auto simp: randomChoice_def randomInt_def)
qed

lemma layoutSnake_Some:
  "layoutSnake occupied d hx hy is body = Some res \<Longrightarrow>
   res = body @ map (segmentAt d hx hy) is
   \<and> (\<forall>i \<in> set is. 0 \<le> hx - dx d * int i \<and> hx - dx d * int i < GRID_COLS
                    \<and> 0 \<le> hy - dy d * int i \<and> hy - dy d * int i < GRID_ROWS
                    \<and> posKey (segmentAt d hx hy i) \<notin> occupied)"
proof (induction "is" arbitrary: body)
  case Nil
  then show ?case by simp
next
  case (Cons i rest)
  let ?x = "hx - dx d * int i" and ?y = "hy - dy d * int i"
  from Cons.prems have inb: "0 \<le> ?x \<and> ?x < GRID_COLS \<and> 0 \<le> ?y \<and> ?y < GRID_ROWS"
    by (simp add: Let_def split: if_splits)
  from Cons.prems have free: "Key (Num ?x) (Num ?y) \<notin> occupied"
    by (simp add: Let_def split: if_splits)
  from Cons.prems inb free
  have rec: "layoutSnake occupied d hx hy rest (body @ [(Num ?x, Num ?y)]) = Some res"
    by (simp add: Let_def not_le not_less split: if_splits)
  from Cons.IH[OF rec] inb free show ?case
    by (simp add: segmentAt_def)
qed

lemma spawnAttempts_failure:
  "spawnAttempts n occupied p now r = (False, p', r') \<Longrightarrow> p' = p \<and> r' = rng_drop (3 * n) r"
proof (induction n arbitrary: r)
  case 0
  then show ?case by simp
next
  case (Suc n)
  obtain d r1 where c: "randomChoice directionKeys r = (d, r1)" by (cases "randomChoice directionKeys r")
  obtain hx r2 where x: "randomInt GRID_COLS r1 = (hx, r2)" by (cases "randomInt GRID_COLS r1")
  obtain hy r3 where y: "randomInt GRID_ROWS r2 = (hy, r3)" by (cases "randomInt GRID_ROWS r2")
  have r3: "r3 = rng_drop 3 r"
    using c x y by (auto simp: randomChoice_def randomInt_def numeral_3_eq_3)
  from Suc.prems c x y have "spawnAttempts n occupied p now r3 = (False, p', r')"
    by (simp split: option.splits)
  from Suc.IH[OF this] show ?case by (simp add: r3 add.commute)
qed

lemma spawnAttempts_success:
  "spawnAttempts n occupied p now r = (True, p', r') \<Longrightarrow>
   \<exists>d hx hy body. d \<in> set directionKeys \<and> 0 \<le> hx \<and> hx < GRID_COLS \<and> 0 \<le> hy \<and> hy < GRID_ROWS
       \<and> layoutSnake occupied d hx hy [0..<INITIAL_LENGTH] [] = Some body
       \<and> p' = p\<lparr>snake := body, direction := Some (Known d), pendingDirection := Some (Known d),
                alive := True, score := 0, spawnedAt := Some now\<rparr>"
proof (induction n arbitrary: r)
  case 0
  then show ?case by simp
next
  case (Suc n)
  obtain d r1 where c: "randomChoice directionKeys r = (d, r1)" by (cases "randomChoice directionKeys r")
  obtain hx r2 where x: "randomInt GRID_COLS r1 = (hx, r2)" by (cases "randomInt GRID_COLS r1")
  obtain hy r3 where y: "randomInt GRID_ROWS r2 = (hy, r3)" by (cases "randomInt GRID_ROWS r2")
  have dm: "d \<in> set directionKeys"
    using randomChoice_member[OF _ c] by (simp add: directionKeys_def)
  have xr: "0 \<le> hx \<and> hx < GRID_COLS"
    using randomInt_range[OF _ x] by (simp add: GRID_COLS_def)
  have yr: "0 \<le> hy \<and> hy < GRID_ROWS"
    using randomInt_range[OF _ y] by (simp add: GRID_ROWS_def)
  show ?case
  proof (cases "layoutSnake occupied d hx hy [0..<INITIAL_LENGTH] []")
    case None
    then have "spawnAttempts n occupied p now r3 = (True, p', r')"
      using Suc.prems c x y by simp
    from Suc.IH[OF this] show ?thesis .
  next
    case (Some body)
    then have "p' = p\<lparr>snake := body, direction := Some (Known d), pendingDirection := Some (Known d),
                        alive := True, score := 0, spawnedAt := Some now\<rparr>"
      using Suc.prems c x y by simp
    with dm xr yr Some show ?thesis by blast
  qed
qed

lemma candidate_drop: "candidate (rng_drop 2 r) k = candidate r (Suc k)"
  by (simp add: candidate_def rng_drop_def)

lemma spawnFoodLoop_step:
  "spawnFoodLoop (Suc n) occupied r =
     (if candidate r 0 \<in> occupied then spawnFoodLoop n occupied (rng_drop 2 r)
      else (Some (Num (int (r 0) mod GRID_COLS), Num (int (r 1) mod GRID_ROWS)), rng_drop 2 r))"
  by (simp add: randomInt_def candidate_def Let_def rng_drop_def numeral_2_eq_2)

lemma all_less_Suc_shift: "(\<forall>k<Suc n. P k) = (P 0 \<and> (\<forall>k<n. P (Suc k)))"
  by (metis less_Suc_eq_0_disj)

lemma spawnFoodLoop_None:
  "(fst (spawnFoodLoop n occupied r) = None) = (\<forall>k<n. candidate r k \<in> occupied)"
proof (induction n arbitrary: r)
  case 0
  then show ?case by simp
next
  case (Suc n)
  show ?case
    unfolding spawnFoodLoop_step all_less_Suc_shift
    by (simp add: Suc.IH candidate_drop)
qed

lemma spawnFoodLoop_None_rng:
  "spawnFoodLoop n occupied r = (None, r') \<Longrightarrow> r' = rng_drop (2 * n) r"
proof (induction n arbitrary: r)
  case 0
  then show ?case by simp
next
  case (Suc n)
  from Suc.prems have "spawnFoodLoop n occupied (rng_drop 2 r) = (None, r')"
    unfolding spawnFoodLoop_step by (simp split: if_splits)
  from Suc.IH[OF this] show ?case by (simp add: add.commute)
qed

lemma spawnFoodLoop_Some:
  "spawnFoodLoop n occupied r = (Some c, r') \<Longrightarrow> inGrid c \<and> posKey c \<notin> occupied"
proof (induction n arbitrary: r)
  case 0
  then show ?case by simp
next
  case (Suc n)
  show ?case
  proof (cases "candidate r 0 \<in> occupied")
    case True
    with Suc.prems have "spawnFoodLoop n occupied (rng_drop 2 r) = (Some c, r')"
      unfolding spawnFoodLoop_step by simp
    from Suc.IH[OF this] show ?thesis .
  next
    case False
    with Suc.prems have c: "c = (Num (int (r 0) mod GRID_COLS), Num (int (r 1) mod GRID_ROWS))"
      unfolding spawnFoodLoop_step by simp
    with False show ?thesis
      by (simp add: candidate_def GRID_COLS_def GRID_ROWS_def)
  qed
qed

lemma candidate_in_grid:
  "\<exists>x \<in> {0..<GRID_COLS}. \<exists>y \<in> {0..<GRID_ROWS}. candidate r k = Key (Num x) (Num y)"
  by (simp add: candidate_def GRID_COLS_def GRID_ROWS_def)

lemma spawnFood_saturated: "gridSaturated ps fs \<Longrightarrow> fst (spawnFood ps fs r) = None"
  unfolding spawnFood_def spawnFoodLoop_None gridSaturated_def
  using candidate_in_grid by metis

lemma ensureFood_appends:
  "ensureFood ps fs r = (fs', r') \<Longrightarrow>
   (\<exists>new. fs' = fs @ new
      \<and> (\<forall>k<length new. inGrid (new ! k) \<and> posKey (new ! k) \<notin> getOccupiedSet ps (fs @ take k new)))
   \<and> (length fs \<le> FOOD_TARGET \<longrightarrow>
         length fs' = FOOD_TARGET \<or> (length fs' < FOOD_TARGET \<and> (\<exists>r0. spawnFood ps fs' r0 = (None, r'))))
   \<and> (FOOD_TARGET \<le> length fs \<longrightarrow> fs' = fs \<and> r' = r)"
proof (induction ps fs r arbitrary: fs' r' rule: ensureFood.induct)
  case (1 ps fs r)
  show ?case
  proof (cases "length fs < FOOD_TARGET")
    case False
    with "1.prems" have "fs' = fs" "r' = r" by (simp_all add: ensureFood.simps[of ps fs r])
    with False show ?thesis by auto
  next
    case True
    obtain res r1 where sp: "spawnFood ps fs r = (res, r1)" by (cases "spawnFood ps fs r")
    show ?thesis
    proof (cases res)
      case None
      with True sp "1.prems" have "fs' = fs" "r' = r1" by (simp_all add: ensureFood.simps[of ps fs r])
      with True sp None show ?thesis by auto
    next
      case (Some food)
      with True sp "1.prems" have rec: "ensureFood ps (fs @ [food]) r1 = (fs', r')"
        by (simp add: ensureFood.simps[of ps fs r])
      from "1.IH"[OF True sp[symmetric, unfolded Some] refl rec[unfolded Some]] obtain new where
        new: "fs' = (fs @ [food]) @ new"
        and free: "\<forall>k<length new. inGrid (new ! k)
                      \<and> posKey (new ! k) \<notin> getOccupiedSet ps ((fs @ [food]) @ take k new)"
        and stop: "length (fs @ [food]) \<le> FOOD_TARGET \<longrightarrow>
           length fs' = FOOD_TARGET \<or> (length fs' < FOOD_TARGET \<and> (\<exists>r0. spawnFood ps fs' r0 = (None, r')))"
        by blast
      have food: "inGrid food \<and> posKey food \<notin> getOccupiedSet ps fs"
        using sp Some spawnFoodLoop_Some by (simp add: spawnFood_def)
      have "\<forall>k<length (food # new). inGrid ((food # new) ! k)
               \<and> posKey ((food # new) ! k) \<notin> getOccupiedSet ps (fs @ take k (food # new))"
      proof (intro allI impI)
        fix k assume "k < length (food # new)"
        then show "inGrid ((food # new) ! k)
               \<and> posKey ((food # new) ! k) \<notin> getOccupiedSet ps (fs @ take k (food # new))"
          using food free by (cases k) simp_all
      qed
      moreover have "fs' = fs @ (food # new)" using new by simp
      ultimately have "\<exists>new. fs' = fs @ new
        \<and> (\<forall>k<length new. inGrid (new ! k) \<and> posKey (new ! k) \<notin> getOccupiedSet ps (fs @ take k new))"
        by blast
      with stop True show ?thesis by auto
    qed
  qed
qed

lemma layoutSnake_iff:
  "layoutSnake occupied d hx hy is body =
     (if \<forall>i \<in> set is. inGrid (segmentAt d hx hy i) \<and> posKey (segmentAt d hx hy i) \<notin> occupied
      then Some (body @ map (segmentAt d hx hy) is) else None)"
  by (induction "is" arbitrary: body) (auto simp: Let_def segmentAt_def)

lemma occupied_iff:
  "(posKey c \<in> getOccupiedSet ps fs) = (c \<in> set fs \<or> (\<exists>q \<in> set (filter alive ps). c \<in> set (snake q)))"
  unfolding getOccupiedSet_def Un_iff UN_iff inj_image_mem_iff[OF inj_posKey]
  by blast

lemma layout_valid:
  "layoutSnake (getOccupiedSet ps fs) d hx hy [0..<INITIAL_LENGTH] [] =
     (if validPlacement ps fs (d, hx, hy) then Some (map (segmentAt d hx hy) [0..<INITIAL_LENGTH]) else None)"
  unfolding layoutSnake_iff validPlacement_def occupied_iff
  by (auto simp: list_all_iff)

lemma placement_drop: "placement (rng_drop 3 r) k = placement r (Suc k)"
  by (simp add: placement_def rng_drop_def ac_simps)

lemma spawnAttempts_step:
  "spawnAttempts (Suc n) occupied p now r =
     (case placement r 0 of (d, hx, hy) \<Rightarrow>
        (case layoutSnake occupied d hx hy [0..<INITIAL_LENGTH] [] of
           None \<Rightarrow> spawnAttempts n occupied p now (rng_drop 3 r)
         | Some body \<Rightarrow>
             (True,
              p\<lparr>snake := body, direction := Some (Known d), pendingDirection := Some (Known d),
                alive := True, score := 0, spawnedAt := Some now\<rparr>,
              rng_drop 3 r)))"
  by (simp add: placement_def randomChoice_def randomInt_def Let_def rng_drop_def numeral_3_eq_3
      split: option.splits)

lemma spawnAttempts_none_valid:
  "\<forall>k<n. \<not> validPlacement ps fs (placement r k) \<Longrightarrow>
   spawnAttempts n (getOccupiedSet ps fs) p now r = (False, p, rng_drop (3 * n) r)"
proof (induction n arbitrary: r)
  case 0
  then show ?case by simp
next
  case (Suc n)
  obtain d hx hy where pl: "placement r 0 = (d, hx, hy)" by (cases "placement r 0")
  from Suc.prems have inv0: "\<not> validPlacement ps fs (placement r 0)" by simp
  from Suc.prems have "\<forall>k<n. \<not> validPlacement ps fs (placement (rng_drop 3 r) k)"
    by (simp add: placement_drop)
  from Suc.IH[OF this] inv0 show ?case
    unfolding spawnAttempts_step by (simp add: pl layout_valid add.commute)
qed

lemma spawnAttempts_first_valid:
  "k < n \<Longrightarrow> placement r k = (d, hx, hy) \<Longrightarrow> validPlacement ps fs (placement r k) \<Longrightarrow>
   \<forall>j<k. \<not> validPlacement ps fs (placement r j) \<Longrightarrow>
   spawnAttempts n (getOccupiedSet ps fs) p now r =
     (True,
      p\<lparr>snake := map (segmentAt d hx hy) [0..<INITIAL_LENGTH], direction := Some (Known d),
        pendingDirection := Some (Known d), alive := True, score := 0, spawnedAt := Some now\<rparr>,
      rng_drop (3 * Suc k) r)"
proof (induction n arbitrary: r k)
  case 0
  then show ?case by simp
next
  case (Suc n)
  show ?case
  proof (cases k)
    case 0
    with Suc.prems show ?thesis
      unfolding spawnAttempts_step by (simp add: layout_valid)
  next
    case (Suc k')
    obtain d0 hx0 hy0 where pl: "placement r 0 = (d0, hx0, hy0)" by (cases "placement r 0")
    from Suc.prems(4) Suc have inv0: "\<not> validPlacement ps fs (placement r 0)" by simp
    have a: "k' < n" using Suc.prems(1) Suc by simp
    have b: "placement (rng_drop 3 r) k' = (d, hx, hy)" using Suc.prems(2) Suc by (simp add: placement_drop)
    have c: "validPlacement ps fs (placement (rng_drop 3 r) k')"
      using Suc.prems(3) Suc by (simp add: placement_drop)
    have e: "\<forall>j<k'. \<not> validPlacement ps fs (placement (rng_drop 3 r) j)"
      using Suc.prems(4) Suc by (simp add: placement_drop)
    from Suc.IH[OF a b c e] inv0 show ?thesis
      unfolding spawnAttempts_step by (simp add: pl layout_valid Suc add.commute)
  qed
qed

lemma placement_range:
  "placement r k = (d, hx, hy) \<Longrightarrow>
   d \<in> set directionKeys \<and> 0 \<le> hx \<and> hx < GRID_COLS \<and> 0 \<le> hy \<and> hy < GRID_ROWS"
proof -
  assume a: "placement r k = (d, hx, hy)"
  have "nat (int (r (3 * k)) mod 4) < 4"
    by (simp add: nat_less_iff)
  then have "directionKeys ! nat (int (r (3 * k)) mod 4) \<in> set directionKeys"
    by (intro nth_mem) (simp add: directionKeys_def)
  with a show ?thesis
    by (auto simp: placement_def GRID_COLS_def GRID_ROWS_def directionKeys_def)
qed

text \<open>
  C9. \<open>spawnPlayer\<close> tries the placements drawn for its \<open>MAX_SPAWN_ATTEMPTS\<close>
  attempts in turn and takes the first valid one: it returns success with a body
  of exactly \<open>INITIAL_LENGTH\<close> cells laid out from the drawn head cell against
  the drawn facing direction, every cell in the grid and free of all alive body
  segments and of all food, and with alive, score 0 and both directions set on
  the participant. When none of the \<open>MAX_SPAWN_ATTEMPTS\<close> placements is valid it
  returns failure and the participant is exactly as before. It succeeds exactly
  when one of these placements is valid.
\<close>

theorem spawnPlayer_result:
  "(\<forall>k d hx hy.
       k < MAX_SPAWN_ATTEMPTS \<and> placement r k = (d, hx, hy)
       \<and> validPlacement ps fs (placement r k)
       \<and> (\<forall>j<k. \<not> validPlacement ps fs (placement r j))
       \<longrightarrow> spawnPlayer ps fs p now r =
             (True,
              p\<lparr>snake := map (segmentAt d hx hy) [0..<INITIAL_LENGTH], direction := Some (Known d),
                pendingDirection := Some (Known d), alive := True, score := 0, spawnedAt := Some now\<rparr>,
              rng_drop (3 * Suc k) r)
           \<and> d \<in> set directionKeys \<and> 0 \<le> hx \<and> hx < GRID_COLS \<and> 0 \<le> hy \<and> hy < GRID_ROWS
           \<and> length (map (segmentAt d hx hy) [0..<INITIAL_LENGTH]) = INITIAL_LENGTH
           \<and> (\<forall>c \<in> set (map (segmentAt d hx hy) [0..<INITIAL_LENGTH]).
                 inGrid c \<and> c \<notin> set fs \<and> (\<forall>q \<in> set ps. alive q \<longrightarrow> c \<notin> set (snake q))))
   \<and> ((\<forall>k<MAX_SPAWN_ATTEMPTS. \<not> validPlacement ps fs (placement r k))
         \<longrightarrow> spawnPlayer ps fs p now r = (False, p, rng_drop (3 * MAX_SPAWN_ATTEMPTS) r))
   \<and> fst (spawnPlayer ps fs p now r) = (\<exists>k<MAX_SPAWN_ATTEMPTS. validPlacement ps fs (placement r k))"
proof (intro conjI allI impI)
  fix k d hx hy
  assume h: "k < MAX_SPAWN_ATTEMPTS \<and> placement r k = (d, hx, hy)
       \<and> validPlacement ps fs (placement r k)
       \<and> (\<forall>j<k. \<not> validPlacement ps fs (placement r j))"
  then have k: "k < MAX_SPAWN_ATTEMPTS" and pl: "placement r k = (d, hx, hy)"
    and vk: "validPlacement ps fs (placement r k)"
    and first: "\<forall>j<k. \<not> validPlacement ps fs (placement r j)"
    by blast+
  show "spawnPlayer ps fs p now r =
             (True,
              p\<lparr>snake := map (segmentAt d hx hy) [0..<INITIAL_LENGTH], direction := Some (Known d),
                pendingDirection := Some (Known d), alive := True, score := 0, spawnedAt := Some now\<rparr>,
              rng_drop (3 * Suc k) r)"
    unfolding spawnPlayer_def by (rule spawnAttempts_first_valid[OF k pl vk first])
  from placement_range[OF pl]
  show "d \<in> set directionKeys" "0 \<le> hx" "hx < GRID_COLS" "0 \<le> hy" "hy < GRID_ROWS" by simp_all
  show "length (map (segmentAt d hx hy) [0..<INITIAL_LENGTH]) = INITIAL_LENGTH" by simp
  from vk have v: "validPlacement ps fs (d, hx, hy)" by (simp add: pl)
  then show "\<forall>c \<in> set (map (segmentAt d hx hy) [0..<INITIAL_LENGTH]).
                 inGrid c \<and> c \<notin> set fs \<and> (\<forall>q \<in> set ps. alive q \<longrightarrow> c \<notin> set (snake q))"
    by (auto simp: validPlacement_def list_all_iff)
next
  assume "\<forall>k<MAX_SPAWN_ATTEMPTS. \<not> validPlacement ps fs (placement r k)"
  then show "spawnPlayer ps fs p now r = (False, p, rng_drop (3 * MAX_SPAWN_ATTEMPTS) r)"
    unfolding spawnPlayer_def by (rule spawnAttempts_none_valid)
next
  show "fst (spawnPlayer ps fs p now r) = (\<exists>k<MAX_SPAWN_ATTEMPTS. validPlacement ps fs (placement r k))"
  proof (cases "\<exists>k<MAX_SPAWN_ATTEMPTS. validPlacement ps fs (placement r k)")
    case False
    then have "spawnPlayer ps fs p now r = (False, p, rng_drop (3 * MAX_SPAWN_ATTEMPTS) r)"
      unfolding spawnPlayer_def by (intro spawnAttempts_none_valid) simp
    with False show ?thesis by simp
  next
    case True
    define k where "k = (LEAST k. k < MAX_SPAWN_ATTEMPTS \<and> validPlacement ps fs (placement r k))"
    from True have kk: "k < MAX_SPAWN_ATTEMPTS \<and> validPlacement ps fs (placement r k)"
      unfolding k_def by (metis (mono_tags, lifting) LeastI_ex)
    have least: "\<not> validPlacement ps fs (placement r j)" if "j < k" for j
    proof
      assume "validPlacement ps fs (placement r j)"
      with that kk have "j < MAX_SPAWN_ATTEMPTS \<and> validPlacement ps fs (placement r j)" by simp
      then have "k \<le> j" unfolding k_def by (rule Least_le)
      with that show False by simp
    qed
    obtain d hx hy where pl: "placement r k = (d, hx, hy)" by (cases "placement r k")
    have "fst (spawnPlayer ps fs p now r)"
      unfolding spawnPlayer_def
      using spawnAttempts_first_valid[of k MAX_SPAWN_ATTEMPTS r d hx hy ps fs p now] kk pl least
      by simp
    with True show ?thesis by simp
  qed
qed

theorem spawnPlayer_result_witness:
  "spawnPlayer [] [] (unjoined ''n'') 5 rng_late =
     (True,
      (unjoined ''n'')\<lparr>snake := cells [(7, 7), (8, 7), (9, 7), (10, 7)], direction := Some (Known Left),
        pendingDirection := Some (Known Left), alive := True, score := 0, spawnedAt := Some 5\<rparr>,
      rng_drop 6 rng_late)
   \<and> \<not> validPlacement [] [] (placement rng_late 0)
   \<and> validPlacement [] [] (placement rng_late 1)
   \<and> spawnPlayer [] [] (unjoined ''n'') 5 (rng_const 1) = (False, unjoined ''n'', rng_drop 360 (rng_const 1))
   \<and> \<not> validPlacement [] [] (placement (rng_const 1) 0)"
proof -
  have p0: "placement rng_late 0 = (Right, 1, 1)" by code_simp
  have p1: "placement rng_late 1 = (Left, 7, 7)" by code_simp
  have i0: "\<not> validPlacement [] [] (Right, 1, 1)" by code_simp
  have v1: "validPlacement [] [] (Left, 7, 7)" by code_simp
  have body: "map (segmentAt Left 7 7) [0..<INITIAL_LENGTH] = cells [(7, 7), (8, 7), (9, 7), (10, 7)]"
    by code_simp
  have pc: "placement (rng_const 1) k = (Right, 1, 1)" for k
    by (simp add: placement_def rng_const_def directionKeys_def GRID_COLS_def GRID_ROWS_def)
  have a: "spawnPlayer [] [] (unjoined ''n'') 5 rng_late =
     (True,
      (unjoined ''n'')\<lparr>snake := cells [(7, 7), (8, 7), (9, 7), (10, 7)], direction := Some (Known Left),
        pendingDirection := Some (Known Left), alive := True, score := 0, spawnedAt := Some 5\<rparr>,
      rng_drop 6 rng_late)"
    using spawnPlayer_result[of rng_late "[]" "[]" "unjoined ''n''" 5, THEN conjunct1, rule_format,
        of 1 Left 7 7] p0 p1 i0 v1
    by (simp add: MAX_SPAWN_ATTEMPTS_def body)
  have b: "spawnPlayer [] [] (unjoined ''n'') 5 (rng_const 1) = (False, unjoined ''n'', rng_drop 360 (rng_const 1))"
    using spawnPlayer_result[of "rng_const 1" "[]" "[]" "unjoined ''n''" 5, THEN conjunct2,
        THEN conjunct1] pc i0
    by (simp add: MAX_SPAWN_ATTEMPTS_def)
  from a b p0 p1 i0 v1 pc show ?thesis by simp
qed

lemma spawnFoodLoop_all_occupied:
  "\<forall>k<n. candidate r k \<in> occupied \<Longrightarrow> spawnFoodLoop n occupied r = (None, rng_drop (2 * n) r)"
proof (induction n arbitrary: r)
  case 0
  then show ?case by simp
next
  case (Suc n)
  from Suc.prems have c0: "candidate r 0 \<in> occupied" by simp
  from Suc.prems have "\<forall>k<n. candidate (rng_drop 2 r) k \<in> occupied"
    by (simp add: candidate_drop)
  from Suc.IH[OF this] c0 show ?case
    unfolding spawnFoodLoop_step by (simp add: add.commute)
qed

lemma spawnFoodLoop_first_free:
  "k < n \<Longrightarrow> candidate r k \<notin> occupied \<Longrightarrow> \<forall>j<k. candidate r j \<in> occupied \<Longrightarrow>
   \<exists>c. spawnFoodLoop n occupied r = (Some c, rng_drop (2 * Suc k) r) \<and> posKey c = candidate r k"
proof (induction n arbitrary: r k)
  case 0
  then show ?case by simp
next
  case (Suc n)
  show ?case
  proof (cases k)
    case 0
    with Suc.prems show ?thesis
      unfolding spawnFoodLoop_step by (simp add: candidate_def)
  next
    case (Suc k')
    from Suc.prems(3) Suc have c0: "candidate r 0 \<in> occupied" by simp
    have a: "k' < n" using Suc.prems(1) Suc by simp
    have b: "candidate (rng_drop 2 r) k' \<notin> occupied" using Suc.prems(2) Suc by (simp add: candidate_drop)
    have e: "\<forall>j<k'. candidate (rng_drop 2 r) j \<in> occupied"
      using Suc.prems(3) Suc by (simp add: candidate_drop)
    from Suc.IH[OF a b e] c0 show ?thesis
      unfolding spawnFoodLoop_step by (simp add: Suc candidate_drop add.commute)
  qed
qed

lemma ensureFood_trace:
  "ensureFood ps fs r = (fs', r') \<Longrightarrow>
   \<exists>new rs. fs' = fs @ new \<and> length rs = Suc (length new) \<and> rs ! 0 = r
      \<and> (\<forall>k<length new. length (fs @ take k new) < FOOD_TARGET
             \<and> spawnFood ps (fs @ take k new) (rs ! k) = (Some (new ! k), rs ! Suc k))
      \<and> (if length fs' < FOOD_TARGET then spawnFood ps fs' (rs ! length new) = (None, r')
         else r' = rs ! length new)"
proof (induction ps fs r arbitrary: fs' r' rule: ensureFood.induct)
  case (1 ps fs r)
  show ?case
  proof (cases "length fs < FOOD_TARGET")
    case False
    with "1.prems" have "fs' = fs" "r' = r" by (simp_all add: ensureFood.simps[of ps fs r])
    with False show ?thesis
      by (intro exI[of _ "[]"] exI[of _ "[r]"]) simp
  next
    case True
    obtain res r1 where sp: "spawnFood ps fs r = (res, r1)" by (cases "spawnFood ps fs r")
    show ?thesis
    proof (cases res)
      case None
      with True sp "1.prems" have "fs' = fs" "r' = r1" by (simp_all add: ensureFood.simps[of ps fs r])
      with True sp None show ?thesis
        by (intro exI[of _ "[]"] exI[of _ "[r]"]) simp
    next
      case (Some food)
      with True sp "1.prems" have rec: "ensureFood ps (fs @ [food]) r1 = (fs', r')"
        by (simp add: ensureFood.simps[of ps fs r])
      from "1.IH"[OF True sp[symmetric, unfolded Some] refl rec[unfolded Some]] obtain new rs where
        new: "fs' = (fs @ [food]) @ new" and len: "length rs = Suc (length new)" and r0: "rs ! 0 = r1"
        and calls: "\<forall>k<length new. length ((fs @ [food]) @ take k new) < FOOD_TARGET
             \<and> spawnFood ps ((fs @ [food]) @ take k new) (rs ! k) = (Some (new ! k), rs ! Suc k)"
        and stop: "if length fs' < FOOD_TARGET then spawnFood ps fs' (rs ! length new) = (None, r')
                   else r' = rs ! length new"
        by blast
      have "\<forall>k<length (food # new). length (fs @ take k (food # new)) < FOOD_TARGET
             \<and> spawnFood ps (fs @ take k (food # new)) ((r # rs) ! k)
                 = (Some ((food # new) ! k), (r # rs) ! Suc k)"
      proof (intro allI impI)
        fix k assume k: "k < length (food # new)"
        show "length (fs @ take k (food # new)) < FOOD_TARGET
             \<and> spawnFood ps (fs @ take k (food # new)) ((r # rs) ! k)
                 = (Some ((food # new) ! k), (r # rs) ! Suc k)"
        proof (cases k)
          case 0
          with True sp Some r0 show ?thesis by simp
        next
          case (Suc k')
          with k calls show ?thesis by simp
        qed
      qed
      moreover have "fs' = fs @ (food # new)" using new by simp
      moreover have "length (r # rs) = Suc (length (food # new))" using len by simp
      moreover have "(r # rs) ! 0 = r" by simp
      moreover have "if length fs' < FOOD_TARGET
                     then spawnFood ps fs' ((r # rs) ! length (food # new)) = (None, r')
                     else r' = (r # rs) ! length (food # new)"
        using stop by simp
      ultimately show ?thesis by blast
    qed
  qed
qed

text \<open>
  C8 (as amended). The refill calls \<open>spawnFood\<close> again and again, each call
  continuing the random sequence where the previous one left it, and appends
  what it returns until \<open>foods.length\<close> reaches the target count or a call
  returns none; it does nothing when the count is already at or above the target.
  Each spawned food lies in the grid on a cell occupied by no alive body segment
  and no food present at that moment. \<open>spawnFood\<close> returns the first of its
  \<open>columns * rows\<close> random candidates that is free, and none exactly when every
  one of them is occupied: always on a saturated grid, and otherwise whenever the
  draws happen to miss the free cells, in which case the refill stops short of
  the target.
\<close>

theorem food_refill:
  assumes "ensureFood ps fs r = (fs', r')"
  shows "(\<exists>new rs. fs' = fs @ new \<and> length rs = Suc (length new) \<and> rs ! 0 = r
            \<and> (\<forall>k<length new.
                   length (fs @ take k new) < FOOD_TARGET
                   \<and> spawnFood ps (fs @ take k new) (rs ! k) = (Some (new ! k), rs ! Suc k)
                   \<and> inGrid (new ! k) \<and> posKey (new ! k) \<notin> getOccupiedSet ps (fs @ take k new))
            \<and> (if length fs' < FOOD_TARGET then spawnFood ps fs' (rs ! length new) = (None, r')
               else r' = rs ! length new))
       \<and> (length fs \<le> FOOD_TARGET \<longrightarrow> length fs' \<le> FOOD_TARGET)
       \<and> (FOOD_TARGET \<le> length fs \<longrightarrow> fs' = fs \<and> r' = r)
       \<and> (\<forall>fs0 r0 k. k < nat (GRID_COLS * GRID_ROWS) \<and> candidate r0 k \<notin> getOccupiedSet ps fs0
                       \<and> (\<forall>j<k. candidate r0 j \<in> getOccupiedSet ps fs0)
             \<longrightarrow> (\<exists>c. spawnFood ps fs0 r0 = (Some c, rng_drop (2 * Suc k) r0) \<and> posKey c = candidate r0 k))
       \<and> (\<forall>fs0 r0. (\<forall>k < nat (GRID_COLS * GRID_ROWS). candidate r0 k \<in> getOccupiedSet ps fs0)
             \<longrightarrow> spawnFood ps fs0 r0 = (None, rng_drop (2 * nat (GRID_COLS * GRID_ROWS)) r0))
       \<and> (\<forall>fs0 r0. (fst (spawnFood ps fs0 r0) = None)
                      = (\<forall>k < nat (GRID_COLS * GRID_ROWS). candidate r0 k \<in> getOccupiedSet ps fs0))
       \<and> (\<forall>fs0 r0. gridSaturated ps fs0 \<longrightarrow> fst (spawnFood ps fs0 r0) = None)"
proof -
  from ensureFood_trace[OF assms] obtain new rs where
    new: "fs' = fs @ new" and len: "length rs = Suc (length new)" and r0: "rs ! 0 = r"
    and calls: "\<forall>k<length new. length (fs @ take k new) < FOOD_TARGET
             \<and> spawnFood ps (fs @ take k new) (rs ! k) = (Some (new ! k), rs ! Suc k)"
    and stop: "if length fs' < FOOD_TARGET then spawnFood ps fs' (rs ! length new) = (None, r')
               else r' = rs ! length new"
    by blast
  have free: "inGrid (new ! k) \<and> posKey (new ! k) \<notin> getOccupiedSet ps (fs @ take k new)"
    if "k < length new" for k
    using calls that spawnFoodLoop_Some[of "nat (GRID_COLS * GRID_ROWS)" "getOccupiedSet ps (fs @ take k new)"
        "rs ! k" "new ! k" "rs ! Suc k"]
    by (simp add: spawnFood_def)
  have trace: "\<exists>new rs. fs' = fs @ new \<and> length rs = Suc (length new) \<and> rs ! 0 = r
            \<and> (\<forall>k<length new.
                   length (fs @ take k new) < FOOD_TARGET
                   \<and> spawnFood ps (fs @ take k new) (rs ! k) = (Some (new ! k), rs ! Suc k)
                   \<and> inGrid (new ! k) \<and> posKey (new ! k) \<notin> getOccupiedSet ps (fs @ take k new))
            \<and> (if length fs' < FOOD_TARGET then spawnFood ps fs' (rs ! length new) = (None, r')
               else r' = rs ! length new)"
    using new len r0 calls stop free by blast
  have bound: "length fs \<le> FOOD_TARGET \<longrightarrow> length fs' \<le> FOOD_TARGET"
    and full: "FOOD_TARGET \<le> length fs \<longrightarrow> fs' = fs \<and> r' = r"
    using ensureFood_appends[OF assms] by auto
  have first: "\<forall>fs0 r0 k. k < nat (GRID_COLS * GRID_ROWS) \<and> candidate r0 k \<notin> getOccupiedSet ps fs0
                       \<and> (\<forall>j<k. candidate r0 j \<in> getOccupiedSet ps fs0)
             \<longrightarrow> (\<exists>c. spawnFood ps fs0 r0 = (Some c, rng_drop (2 * Suc k) r0) \<and> posKey c = candidate r0 k)"
    unfolding spawnFood_def using spawnFoodLoop_first_free by blast
  have none: "\<forall>fs0 r0. (\<forall>k < nat (GRID_COLS * GRID_ROWS). candidate r0 k \<in> getOccupiedSet ps fs0)
             \<longrightarrow> spawnFood ps fs0 r0 = (None, rng_drop (2 * nat (GRID_COLS * GRID_ROWS)) r0)"
    unfolding spawnFood_def using spawnFoodLoop_all_occupied by blast
  have iff: "\<forall>fs0 r0. (fst (spawnFood ps fs0 r0) = None)
                      = (\<forall>k < nat (GRID_COLS * GRID_ROWS). candidate r0 k \<in> getOccupiedSet ps fs0)"
    by (simp add: spawnFood_def spawnFoodLoop_None)
  have sat: "\<forall>fs0 r0. gridSaturated ps fs0 \<longrightarrow> fst (spawnFood ps fs0 r0) = None"
    using spawnFood_saturated by blast
  from trace bound full first none iff sat show ?thesis by blast
qed

theorem food_refill_witness:
  "fst (ensureFood [] (cells [(0, 0)]) rng_count) = cells [(0, 0)] @ cells [(0, 1), (2, 3), (4, 5), (6, 7)]
   \<and> length (cells [(0, 0)]) \<le> FOOD_TARGET
   \<and> length (fst (ensureFood [] (cells [(0, 0)]) rng_count)) = FOOD_TARGET
   \<and> candidate (rng_const 0) 0 = Key (Num 0) (Num 0)
   \<and> ensureFood [] (cells [(0, 0)]) (rng_const 0) = (cells [(0, 0)], rng_drop 2400 (rng_const 0))"
proof -
  obtain fs' r' where e: "ensureFood [] (cells [(0, 0)]) rng_count = (fs', r')"
    by (cases "ensureFood [] (cells [(0, 0)]) rng_count")
  have v: "fst (ensureFood [] (cells [(0, 0)]) rng_count) = cells [(0, 0), (0, 1), (2, 3), (4, 5), (6, 7)]"
    by code_simp
  have l: "length (cells [(0, 0)]) \<le> FOOD_TARGET" by code_simp
  have "\<not> length fs' < FOOD_TARGET" using v e by (simp add: cells_def FOOD_TARGET_def)
  moreover from food_refill[OF e] l have "length fs' \<le> FOOD_TARGET" by blast
  ultimately have full: "length fs' = FOOD_TARGET" by simp
  obtain fs2 r2 where e2: "ensureFood [] (cells [(0, 0)]) (rng_const 0) = (fs2, r2)"
    by (cases "ensureFood [] (cells [(0, 0)]) (rng_const 0)")
  have c: "candidate (rng_const 0) k = Key (Num 0) (Num 0)" for k
    by (simp add: candidate_def rng_const_def)
  have o: "Key (Num 0) (Num 0) \<in> getOccupiedSet [] (cells [(0, 0)])" by code_simp
  have sp: "spawnFood [] (cells [(0, 0)]) (rng_const 0) = (None, rng_drop 2400 (rng_const 0))"
    using food_refill[OF e2, THEN conjunct2, THEN conjunct2, THEN conjunct2, THEN conjunct2,
        THEN conjunct1, rule_format, of "rng_const 0" "cells [(0, 0)]"] c o
    by (simp add: GRID_COLS_def GRID_ROWS_def)
  have "length (cells [(0, 0)]) < FOOD_TARGET" by code_simp
  with sp have "ensureFood [] (cells [(0, 0)]) (rng_const 0) = (cells [(0, 0)], rng_drop 2400 (rng_const 0))"
    by (simp add: ensureFood.simps[of "[]" "cells [(0, 0)]" "rng_const 0"])
  with e v l full c show ?thesis by (simp add: cells_def)
qed

theorem spawnFood_misses_free_cells_counterexample:
  "fst (spawnFood [] (cells [(0, 0)]) (rng_const 0)) = None
   \<and> Key (Num 1) (Num 0) \<notin> getOccupiedSet [] (cells [(0, 0)])
   \<and> \<not> gridSaturated [] (cells [(0, 0)])
   \<and> fst (ensureFood [] (cells [(0, 0)]) (rng_const 0)) = cells [(0, 0)]
   \<and> length (cells [(0, 0)]) < FOOD_TARGET"
proof -
  have a: "fst (spawnFood [] (cells [(0, 0)]) (rng_const 0)) = None" by code_simp
  have b: "Key (Num 1) (Num 0) \<notin> getOccupiedSet [] (cells [(0, 0)])" by code_simp
  have c: "\<not> gridSaturated [] (cells [(0, 0)])" by code_simp
  have d: "fst (ensureFood [] (cells [(0, 0)]) (rng_const 0)) = cells [(0, 0)]" by code_simp
  have e: "length (cells [(0, 0)]) < FOOD_TARGET" by code_simp
  from a b c d e show ?thesis by simp
qed

subsection \<open>The tick\<close>

lemma commitMove_eq:
  "commitMove m (ps, fs) =
     (ps[mplayer m := commitPlayer m (ps ! mplayer m)],
      if \<not> dead m \<and> willEat m then removeFood (nextHead m) fs else fs)"
  by (simp add: commitMove_def commitPlayer_def Let_def)

lemma those_Some: "those xs = Some ys \<Longrightarrow> xs = map Some ys"
  by (induction xs arbitrary: ys) (auto split: option.splits)

lemma createMove_Some:
  "createMove fs i p = Some m \<Longrightarrow>
   snake p \<noteq> [] \<and> plan m = (i, chooseDirection p, plannedHead p, list_ex (sameCell (plannedHead p)) fs)"
  by (auto simp: createMove_def plan_def plannedHead_def Let_def split: list.splits)

lemma createMove_fresh:
  "createMove fs i p = Some m \<Longrightarrow>
   \<not> dead m \<and> nextHead m = plannedHead p \<and> mdirection m = chooseDirection p \<and> mplayer m = i"
  by (auto simp: createMove_def plannedHead_def Let_def split: list.splits)

lemma planMoves_Some:
  assumes "planMoves fs ps = Some ms"
  shows "map mplayer ms = filter (\<lambda>i. alive (ps ! i)) [0..<length ps]"
    and "\<forall>m \<in> set ms. createMove fs (mplayer m) (ps ! mplayer m) = Some m"
proof -
  let ?idx = "filter (\<lambda>i. alive (ps ! i)) [0..<length ps]"
  from assms have eq: "map (\<lambda>i. createMove fs i (ps ! i)) ?idx = map Some ms"
    unfolding planMoves_def by (rule those_Some)
  then have len: "length ms = length ?idx" by (metis length_map)
  have each: "createMove fs (?idx ! k) (ps ! (?idx ! k)) = Some (ms ! k)" if "k < length ms" for k
    using that eq len by (metis (no_types, lifting) nth_map)
  have pl: "mplayer (ms ! k) = ?idx ! k" if "k < length ms" for k
    using createMove_Some[OF each[OF that]] by (simp add: plan_def)
  show "map mplayer ms = ?idx"
    using len pl by (intro nth_equalityI) simp_all
  show "\<forall>m \<in> set ms. createMove fs (mplayer m) (ps ! mplayer m) = Some m"
    using each pl by (metis in_set_conv_nth)
qed

lemma planMoves_indices:
  assumes pm: "planMoves fs ps = Some lm" and j: "j < length lm"
  shows "mplayer (lm ! j) < length ps" and "alive (ps ! mplayer (lm ! j))"
    and "\<not> dead (lm ! j)" and "nextHead (lm ! j) = plannedHead (ps ! mplayer (lm ! j))"
    and "mdirection (lm ! j) = chooseDirection (ps ! mplayer (lm ! j))"
proof -
  have "mplayer (lm ! j) \<in> set (map mplayer lm)" using j by simp
  then have "mplayer (lm ! j) \<in> set (filter (\<lambda>i. alive (ps ! i)) [0..<length ps])"
    using planMoves_Some(1)[OF pm] by simp
  then show "mplayer (lm ! j) < length ps" and "alive (ps ! mplayer (lm ! j))" by simp_all
  have "createMove fs (mplayer (lm ! j)) (ps ! mplayer (lm ! j)) = Some (lm ! j)"
    using planMoves_Some(2)[OF pm] j by simp
  from createMove_fresh[OF this]
  show "\<not> dead (lm ! j)" and "nextHead (lm ! j) = plannedHead (ps ! mplayer (lm ! j))"
    and "mdirection (lm ! j) = chooseDirection (ps ! mplayer (lm ! j))"
    by simp_all
qed

lemma fold_commitMove:
  assumes "distinct (map mplayer ms)"
  shows "length (fst (fold commitMove ms (ps, fs))) = length ps
       \<and> (\<forall>i<length ps. fst (fold commitMove ms (ps, fs)) ! i
             = (case find (\<lambda>m. mplayer m = i) ms of None \<Rightarrow> ps ! i | Some m \<Rightarrow> commitPlayer m (ps ! i)))"
  using assms
proof (induction ms arbitrary: ps fs)
  case Nil
  then show ?case by simp
next
  case (Cons m ms)
  let ?ps1 = "ps[mplayer m := commitPlayer m (ps ! mplayer m)]"
  let ?fs1 = "if \<not> dead m \<and> willEat m then removeFood (nextHead m) fs else fs"
  from Cons.prems have d: "distinct (map mplayer ms)" and notin: "mplayer m \<notin> mplayer ` set ms" by auto
  have none: "find (\<lambda>m'. mplayer m' = mplayer m) ms = None"
    using notin by (auto simp: find_None_iff intro: rev_image_eqI)
  have step: "fold commitMove (m # ms) (ps, fs) = fold commitMove ms (?ps1, ?fs1)"
    by (simp add: commitMove_eq)
  from Cons.IH[OF d, of ?ps1 ?fs1]
  have len: "length (fst (fold commitMove ms (?ps1, ?fs1))) = length ps"
    and nth: "\<forall>i<length ps. fst (fold commitMove ms (?ps1, ?fs1)) ! i
             = (case find (\<lambda>m. mplayer m = i) ms of None \<Rightarrow> ?ps1 ! i | Some m \<Rightarrow> commitPlayer m (?ps1 ! i))"
    by simp_all
  show ?case
    unfolding step
  proof (intro conjI allI impI)
    show "length (fst (fold commitMove ms (?ps1, ?fs1))) = length ps" by (rule len)
    fix i assume i: "i < length ps"
    show "fst (fold commitMove ms (?ps1, ?fs1)) ! i
            = (case find (\<lambda>m. mplayer m = i) (m # ms) of None \<Rightarrow> ps ! i | Some m \<Rightarrow> commitPlayer m (ps ! i))"
    proof (cases "mplayer m = i")
      case True
      with nth i none show ?thesis by simp
    next
      case False
      then have upd: "?ps1 ! i = ps ! i" by simp
      with False nth i show ?thesis by (simp split: option.splits)
    qed
  qed
qed

lemma find_mplayer:
  "find (\<lambda>m. mplayer m = i) ms = None \<Longrightarrow> i \<notin> set (map mplayer ms)"
  "find (\<lambda>m. mplayer m = i) ms = Some m \<Longrightarrow> m \<in> set ms \<and> mplayer m = i"
  by (auto simp: find_None_iff find_Some_iff)

lemma find_index_of:
  "find P xs = Some m \<Longrightarrow> \<exists>t<length xs. xs ! t = m \<and> P m"
  by (auto simp: find_Some_iff)

lemma resolved_move_plan:
  assumes pm: "planMoves fs ps = Some lm" and m: "m \<in> set (resolve ps lm)"
  shows "alive (ps ! mplayer m) \<and> mplayer m < length ps \<and> snake (ps ! mplayer m) \<noteq> []
       \<and> mdirection m = chooseDirection (ps ! mplayer m)
       \<and> nextHead m = plannedHead (ps ! mplayer m)
       \<and> willEat m = list_ex (sameCell (plannedHead (ps ! mplayer m))) fs"
proof -
  from m obtain k where k: "k < length (resolve ps lm)" and mk: "resolve ps lm ! k = m"
    by (auto simp: in_set_conv_nth)
  have klm: "k < length lm" using k by simp
  have "plan m = map plan (resolve ps lm) ! k" using k mk by simp
  also have "\<dots> = plan (lm ! k)" using klm by (simp add: plan_resolve)
  finally have pl: "plan m = plan (lm ! k)" .
  have mem: "lm ! k \<in> set lm" using klm by simp
  with planMoves_Some(2)[OF pm]
  have cm: "createMove fs (mplayer (lm ! k)) (ps ! mplayer (lm ! k)) = Some (lm ! k)" by blast
  have same: "mplayer (lm ! k) = mplayer m" using pl by (simp add: plan_def)
  have "mplayer (lm ! k) \<in> set (map mplayer lm)" using mem by simp
  then have idx: "mplayer m \<in> set (filter (\<lambda>i. alive (ps ! i)) [0..<length ps])"
    using planMoves_Some(1)[OF pm] same by simp
  from createMove_Some[OF cm] pl same idx show ?thesis
    by (auto simp: plan_def)
qed

lemma those_total: "\<forall>x \<in> set xs. x \<noteq> None \<Longrightarrow> those xs = Some (map the xs)"
  by (induction xs) auto

lemma createMove_total: "snake p \<noteq> [] \<Longrightarrow> \<exists>m. createMove fs i p = Some m"
  by (simp add: createMove_def Let_def split: list.splits)

lemma planMoves_total:
  assumes "\<forall>p \<in> set ps. alive p \<longrightarrow> snake p \<noteq> []"
  shows "planMoves fs ps \<noteq> None"
proof -
  have "\<forall>x \<in> set (map (\<lambda>i. createMove fs i (ps ! i)) (filter (\<lambda>i. alive (ps ! i)) [0..<length ps])). x \<noteq> None"
    using assms createMove_total by (fastforce simp: nth_mem)
  from those_total[OF this] show ?thesis by (simp add: planMoves_def)
qed

lemma tick_returns:
  assumes "\<forall>p \<in> set (players w). alive p \<longrightarrow> snake p \<noteq> []"
  shows "\<exists>w' r'. tick w r = Some (w', r')"
proof -
  obtain fs1 r1 where ef: "ensureFood (players w) (foods w) r = (fs1, r1)"
    by (cases "ensureFood (players w) (foods w) r")
  from planMoves_total[OF assms] obtain lm where "planMoves fs1 (players w) = Some lm" by blast
  with ef show ?thesis
    by (auto simp: tick_def Let_def split: prod.splits)
qed

lemma tick_players:
  assumes t: "tick w r = Some (w', r')"
  shows "\<exists>lm. planMoves (fst (ensureFood (players w) (foods w) r)) (players w) = Some lm
       \<and> length (players w') = length (players w)
       \<and> (\<forall>i<length (players w).
             players w' ! i = (case find (\<lambda>m. mplayer m = i) (resolve (players w) lm) of
                                 None \<Rightarrow> players w ! i
                               | Some m \<Rightarrow> commitPlayer m (players w ! i)))"
proof -
  let ?ps = "players w"
  obtain fs1 r1 where ef: "ensureFood ?ps (foods w) r = (fs1, r1)" by (cases "ensureFood ?ps (foods w) r")
  from t ef obtain lm where pm: "planMoves fs1 ?ps = Some lm"
    by (auto simp: tick_def split: option.splits)
  let ?res = "resolve ?ps lm"
  have pw': "players w' = (if lm = [] then ?ps else fst (fold commitMove ?res (?ps, fs1)))"
    using t ef pm by (auto simp: tick_def Let_def split: prod.splits if_splits)
  have "map mplayer ?res = map fst (map plan ?res)" by (simp add: plan_def comp_def)
  also have "\<dots> = map mplayer lm" by (simp add: plan_resolve plan_def comp_def)
  finally have mpl: "map mplayer ?res = filter (\<lambda>i. alive (?ps ! i)) [0..<length ?ps]"
    using planMoves_Some(1)[OF pm] by simp
  then have dist: "distinct (map mplayer ?res)" by simp
  note fc = fold_commitMove[OF dist, of ?ps fs1]
  have len: "length (players w') = length ?ps" using pw' fc by simp
  have nth: "players w' ! i = (case find (\<lambda>m. mplayer m = i) ?res of
                                 None \<Rightarrow> ?ps ! i | Some m \<Rightarrow> commitPlayer m (?ps ! i))"
    if "i < length ?ps" for i
  proof (cases "lm = []")
    case True
    then have "?res = []" by (metis length_0_conv length_resolve)
    with True show ?thesis using pw' by simp
  next
    case False
    then show ?thesis using pw' fc that by simp
  qed
  from pm len nth ef show ?thesis by auto
qed

lemma lengthLaw_nonempty: "lengthLaw p \<Longrightarrow> alive p \<Longrightarrow> snake p \<noteq> []"
  by (auto simp: lengthLaw_def INITIAL_LENGTH_def)

lemma tick_growth_aux:
  assumes t: "tick w r = Some (w', r')"
      and inv: "\<forall>p \<in> set (players w). lengthLaw p"
  shows "length (players w') = length (players w)
       \<and> (\<forall>p \<in> set (players w'). lengthLaw p)
       \<and> (\<forall>i < length (players w).
            let p = players w ! i; p' = players w' ! i; nh = plannedHead p;
                fs1 = fst (ensureFood (players w) (foods w) r)
            in alive p' \<longrightarrow>
                 alive p \<and> snake p \<noteq> []
                 \<and> (if list_ex (sameCell nh) fs1
                     then snake p' = nh # snake p \<and> score p' = score p + 1
                          \<and> length (snake p') = length (snake p) + 1 \<and> last (snake p') = last (snake p)
                     else snake p' = butlast (nh # snake p) \<and> score p' = score p
                          \<and> length (snake p') = length (snake p)))"
proof -
  let ?ps = "players w"
  obtain fs1 r1 where ef: "ensureFood ?ps (foods w) r = (fs1, r1)" by (cases "ensureFood ?ps (foods w) r")
  from t ef obtain lm where pm: "planMoves fs1 ?ps = Some lm"
    by (auto simp: tick_def split: option.splits)
  let ?res = "resolve ?ps lm"
  have pw': "players w' = (if lm = [] then ?ps else fst (fold commitMove ?res (?ps, fs1)))"
    using t ef pm by (auto simp: tick_def Let_def split: prod.splits if_splits)
  have mpl: "map mplayer ?res = filter (\<lambda>i. alive (?ps ! i)) [0..<length ?ps]"
  proof -
    have "map mplayer ?res = map fst (map plan ?res)" by (simp add: plan_def comp_def)
    also have "\<dots> = map mplayer lm" by (simp add: plan_resolve plan_def comp_def)
    finally show ?thesis using planMoves_Some(1)[OF pm] by simp
  qed
  then have dist: "distinct (map mplayer ?res)" by simp
  note fc = fold_commitMove[OF dist, of ?ps fs1]
  have len: "length (players w') = length ?ps" using pw' fc by simp
  have nth: "players w' ! i = (case find (\<lambda>m. mplayer m = i) ?res of
                                 None \<Rightarrow> ?ps ! i | Some m \<Rightarrow> commitPlayer m (?ps ! i))"
    if "i < length ?ps" for i
  proof (cases "lm = []")
    case True
    then show ?thesis using pw' by (simp add: resolve_def Let_def wallPass_def bodyPass_def bodyPassIn_def
        headPass_def headOccupancy_def)
  next
    case False
    then show ?thesis using pw' fc that by simp
  qed
  have growth: "alive (?ps ! i) \<and> snake (?ps ! i) \<noteq> []
        \<and> (if list_ex (sameCell (plannedHead (?ps ! i))) fs1
            then snake (players w' ! i) = plannedHead (?ps ! i) # snake (?ps ! i)
                 \<and> score (players w' ! i) = score (?ps ! i) + 1
            else snake (players w' ! i) = butlast (plannedHead (?ps ! i) # snake (?ps ! i))
                 \<and> score (players w' ! i) = score (?ps ! i))"
    if i: "i < length ?ps" and al: "alive (players w' ! i)" for i
  proof (cases "find (\<lambda>m. mplayer m = i) ?res")
    case None
    then have "i \<notin> set (map mplayer ?res)" by (rule find_mplayer(1))
    with mpl i have "\<not> alive (?ps ! i)" by simp
    moreover from None nth[OF i] have "players w' ! i = ?ps ! i" by simp
    ultimately show ?thesis using al by simp
  next
    case (Some m)
    from find_mplayer(2)[OF Some] have m: "m \<in> set ?res" and mi: "mplayer m = i" by simp_all
    from resolved_move_plan[OF pm m] mi
    have alp: "alive (?ps ! i)" and ne: "snake (?ps ! i) \<noteq> []"
      and nh: "nextHead m = plannedHead (?ps ! i)"
      and we: "willEat m = list_ex (sameCell (plannedHead (?ps ! i))) fs1"
      by simp_all
    from Some nth[OF i] have p': "players w' ! i = commitPlayer m (?ps ! i)" by simp
    have "\<not> dead m"
    proof
      assume "dead m"
      with p' alp have "\<not> alive (players w' ! i)" by (simp add: commitPlayer_def killPlayer_def)
      with al show False by simp
    qed
    with p' alp ne nh we show ?thesis
      by (simp add: commitPlayer_def)
  qed
  have law: "lengthLaw p'" if "p' \<in> set (players w')" for p'
  proof -
    from that len obtain i where i: "i < length ?ps" and p': "p' = players w' ! i"
      by (metis in_set_conv_nth)
    have old: "lengthLaw (?ps ! i)" using inv i by simp
    show ?thesis
    proof (cases "alive p'")
      case False
      then show ?thesis by (simp add: lengthLaw_def)
    next
      case True
      from growth[OF i True[unfolded p']] old show ?thesis
        unfolding p' lengthLaw_def by (auto split: if_splits)
    qed
  qed
  show ?thesis
    unfolding Let_def
  proof (intro conjI allI impI ballI)
    show "length (players w') = length ?ps" by (rule len)
  next
    fix p' assume "p' \<in> set (players w')" then show "lengthLaw p'" by (rule law)
  next
    fix i assume i: "i < length ?ps" and al: "alive (players w' ! i)"
    from growth[OF i al] show "alive (?ps ! i)" by simp
    from growth[OF i al] show "snake (?ps ! i) \<noteq> []" by simp
    from growth[OF i al]
    show "if list_ex (sameCell (plannedHead (?ps ! i))) (fst (ensureFood ?ps (foods w) r))
          then snake (players w' ! i) = plannedHead (?ps ! i) # snake (?ps ! i)
               \<and> score (players w' ! i) = score (?ps ! i) + 1
               \<and> length (snake (players w' ! i)) = length (snake (?ps ! i)) + 1
               \<and> last (snake (players w' ! i)) = last (snake (?ps ! i))
          else snake (players w' ! i) = butlast (plannedHead (?ps ! i) # snake (?ps ! i))
               \<and> score (players w' ! i) = score (?ps ! i)
               \<and> length (snake (players w' ! i)) = length (snake (?ps ! i))"
      by (auto simp: ef)
  qed
qed

lemma tick_commits:
  assumes t: "tick w r = Some (w', r')"
      and pm: "planMoves (fst (ensureFood (players w) (foods w) r)) (players w) = Some lm"
      and i: "i < length (players w)"
  shows "if \<not> alive (players w ! i) then players w' ! i = players w ! i
         else \<exists>t<length lm. mplayer (lm ! t) = i \<and> snake (players w ! i) \<noteq> []
                \<and> mdirection (lm ! t) = chooseDirection (players w ! i)
                \<and> nextHead (lm ! t) = plannedHead (players w ! i)
                \<and> willEat (lm ! t) = list_ex (sameCell (plannedHead (players w ! i)))
                                         (fst (ensureFood (players w) (foods w) r))
                \<and> players w' ! i = commitPlayer (resolve (players w) lm ! t) (players w ! i)"
proof -
  let ?ps = "players w"
  let ?res = "resolve ?ps lm"
  from tick_players[OF t] pm i
  have nth: "players w' ! i = (case find (\<lambda>m. mplayer m = i) ?res of
                                 None \<Rightarrow> ?ps ! i | Some m \<Rightarrow> commitPlayer m (?ps ! i))"
    by auto
  have mpl: "map mplayer ?res = filter (\<lambda>i. alive (?ps ! i)) [0..<length ?ps]"
  proof -
    have "map mplayer ?res = map fst (map plan ?res)" by (simp add: plan_def comp_def)
    also have "\<dots> = map mplayer lm" by (simp add: plan_resolve plan_def comp_def)
    finally show ?thesis using planMoves_Some(1)[OF pm] by simp
  qed
  show ?thesis
  proof (cases "find (\<lambda>m. mplayer m = i) ?res")
    case None
    then have "i \<notin> set (map mplayer ?res)" by (rule find_mplayer(1))
    with mpl i have "\<not> alive (?ps ! i)" by simp
    with None nth show ?thesis by simp
  next
    case (Some m)
    from find_index_of[OF Some] obtain t where tl: "t < length ?res" and mt: "?res ! t = m"
      and mi: "mplayer m = i" by blast
    have tlm: "t < length lm" using tl by simp
    have m: "m \<in> set ?res" using tl mt by (metis nth_mem)
    from resolved_move_plan[OF pm m] mi
    have alp: "alive (?ps ! i)" and ne: "snake (?ps ! i) \<noteq> []"
      and md: "mdirection m = chooseDirection (?ps ! i)"
      and nh: "nextHead m = plannedHead (?ps ! i)"
      and we: "willEat m = list_ex (sameCell (plannedHead (?ps ! i)))
                              (fst (ensureFood ?ps (foods w) r))"
      by simp_all
    have pl: "plan (?res ! t) = plan (lm ! t)"
      using plan_nth[OF plan_resolve tlm] .
    from pl mt mi md nh we
    have "mplayer (lm ! t) = i" "mdirection (lm ! t) = chooseDirection (?ps ! i)"
      "nextHead (lm ! t) = plannedHead (?ps ! i)"
      "willEat (lm ! t) = list_ex (sameCell (plannedHead (?ps ! i))) (fst (ensureFood ?ps (foods w) r))"
      by (auto simp: plan_def)
    moreover from Some nth mt have "players w' ! i = commitPlayer (?res ! t) (?ps ! i)" by simp
    ultimately have "\<exists>t<length lm. mplayer (lm ! t) = i \<and> snake (players w ! i) \<noteq> []
                \<and> mdirection (lm ! t) = chooseDirection (players w ! i)
                \<and> nextHead (lm ! t) = plannedHead (players w ! i)
                \<and> willEat (lm ! t) = list_ex (sameCell (plannedHead (players w ! i)))
                                         (fst (ensureFood (players w) (foods w) r))
                \<and> players w' ! i = commitPlayer (resolve (players w) lm ! t) (players w ! i)"
      using ne tlm by (intro exI[of _ t]) simp
    with alp show ?thesis by simp
  qed
qed

text \<open>
  C5. A tick returns, and after it every alive participant's body length equals
  score + \<open>INITIAL_LENGTH\<close> (given that this held before, with scores that are
  not negative). A participant that was not alive is left as it was. Every alive
  participant has its move in \<open>liveMoves\<close>, and the tick commits it as the
  three passes resolved it: a dead move kills the participant; a surviving move
  with \<open>willEat\<close> puts the new head in front of the whole previous body (length
  and score grow by exactly one, the tail stays in place); a surviving move
  without \<open>willEat\<close> puts the new head in front and removes exactly the last
  element (length and score unchanged).
\<close>

theorem tick_growth_law:
  assumes "\<forall>p \<in> set (players w). lengthLaw p"
  shows "\<exists>w' r' lm. tick w r = Some (w', r')
       \<and> planMoves (fst (ensureFood (players w) (foods w) r)) (players w) = Some lm
       \<and> length (players w') = length (players w)
       \<and> (\<forall>p \<in> set (players w'). lengthLaw p)
       \<and> (\<forall>i < length (players w).
            let p = players w ! i; p' = players w' ! i; nh = plannedHead p; d = chooseDirection p
            in if \<not> alive p then p' = p
               else \<exists>t < length lm.
                      mplayer (lm ! t) = i \<and> nextHead (lm ! t) = nh \<and> mdirection (lm ! t) = d
                      \<and> willEat (lm ! t)
                          = list_ex (sameCell nh) (fst (ensureFood (players w) (foods w) r))
                      \<and> snake p \<noteq> []
                      \<and> (if dead (resolve (players w) lm ! t)
                         then p' = p\<lparr>alive := False, snake := [], direction := None,
                                      pendingDirection := None, score := 0, deaths := deaths p + 1\<rparr>
                         else if willEat (lm ! t)
                         then p' = p\<lparr>direction := Some d, pendingDirection := Some d,
                                      snake := nh # snake p, score := score p + 1,
                                      best := max (best p) (int (length (snake p)) + 1)\<rparr>
                              \<and> alive p' \<and> length (snake p') = length (snake p) + 1
                              \<and> last (snake p') = last (snake p)
                         else p' = p\<lparr>direction := Some d, pendingDirection := Some d,
                                      snake := nh # butlast (snake p)\<rparr>
                              \<and> alive p' \<and> length (snake p') = length (snake p)
                              \<and> score p' = score p))"
proof -
  have "\<forall>p \<in> set (players w). alive p \<longrightarrow> snake p \<noteq> []"
    using assms lengthLaw_nonempty by blast
  from tick_returns[OF this] obtain w' r' where t: "tick w r = Some (w', r')" by blast
  from tick_players[OF t] obtain lm where
    pm: "planMoves (fst (ensureFood (players w) (foods w) r)) (players w) = Some lm" by blast
  from tick_growth_aux[OF t assms]
  have len: "length (players w') = length (players w)"
    and law: "\<forall>p \<in> set (players w'). lengthLaw p" by simp_all
  have each: "let p = players w ! i; p' = players w' ! i; nh = plannedHead p; d = chooseDirection p
            in if \<not> alive p then p' = p
               else \<exists>t < length lm.
                      mplayer (lm ! t) = i \<and> nextHead (lm ! t) = nh \<and> mdirection (lm ! t) = d
                      \<and> willEat (lm ! t)
                          = list_ex (sameCell nh) (fst (ensureFood (players w) (foods w) r))
                      \<and> snake p \<noteq> []
                      \<and> (if dead (resolve (players w) lm ! t)
                         then p' = p\<lparr>alive := False, snake := [], direction := None,
                                      pendingDirection := None, score := 0, deaths := deaths p + 1\<rparr>
                         else if willEat (lm ! t)
                         then p' = p\<lparr>direction := Some d, pendingDirection := Some d,
                                      snake := nh # snake p, score := score p + 1,
                                      best := max (best p) (int (length (snake p)) + 1)\<rparr>
                              \<and> alive p' \<and> length (snake p') = length (snake p) + 1
                              \<and> last (snake p') = last (snake p)
                         else p' = p\<lparr>direction := Some d, pendingDirection := Some d,
                                      snake := nh # butlast (snake p)\<rparr>
                              \<and> alive p' \<and> length (snake p') = length (snake p)
                              \<and> score p' = score p)"
    if i: "i < length (players w)" for i
  proof (cases "alive (players w ! i)")
    case False
    with tick_commits[OF t pm i] show ?thesis by (simp add: Let_def)
  next
    case True
    with tick_commits[OF t pm i] obtain k where k: "k < length lm" and mk: "mplayer (lm ! k) = i"
      and ne: "snake (players w ! i) \<noteq> []"
      and md: "mdirection (lm ! k) = chooseDirection (players w ! i)"
      and nh: "nextHead (lm ! k) = plannedHead (players w ! i)"
      and we: "willEat (lm ! k) = list_ex (sameCell (plannedHead (players w ! i)))
                                         (fst (ensureFood (players w) (foods w) r))"
      and p': "players w' ! i = commitPlayer (resolve (players w) lm ! k) (players w ! i)"
      by auto
    have pl: "plan (resolve (players w) lm ! k) = plan (lm ! k)"
      using plan_nth[OF plan_resolve k] .
    then have same: "mdirection (resolve (players w) lm ! k) = mdirection (lm ! k)"
      "nextHead (resolve (players w) lm ! k) = nextHead (lm ! k)"
      "willEat (resolve (players w) lm ! k) = willEat (lm ! k)"
      by (simp_all add: plan_def)
    let ?p = "players w ! i" and ?p' = "players w' ! i" and ?m = "resolve (players w) lm ! k"
    have cases3: "if dead ?m
                  then ?p' = ?p\<lparr>alive := False, snake := [], direction := None,
                                  pendingDirection := None, score := 0, deaths := deaths ?p + 1\<rparr>
                  else if willEat (lm ! k)
                  then ?p' = ?p\<lparr>direction := Some (chooseDirection ?p),
                                  pendingDirection := Some (chooseDirection ?p),
                                  snake := plannedHead ?p # snake ?p, score := score ?p + 1,
                                  best := max (best ?p) (int (length (snake ?p)) + 1)\<rparr>
                       \<and> alive ?p' \<and> length (snake ?p') = length (snake ?p) + 1
                       \<and> last (snake ?p') = last (snake ?p)
                  else ?p' = ?p\<lparr>direction := Some (chooseDirection ?p),
                                  pendingDirection := Some (chooseDirection ?p),
                                  snake := plannedHead ?p # butlast (snake ?p)\<rparr>
                       \<and> alive ?p' \<and> length (snake ?p') = length (snake ?p)
                       \<and> score ?p' = score ?p"
    proof (cases "dead ?m")
      case True
      with \<open>alive ?p\<close> show ?thesis by (simp add: p' commitPlayer_def killPlayer_def)
    next
      case nd: False
      show ?thesis
      proof (cases "willEat (lm ! k)")
        case True
        with nd \<open>alive ?p\<close> ne show ?thesis
          by (simp add: p' commitPlayer_def same md nh ac_simps)
      next
        case False
        with nd \<open>alive ?p\<close> ne show ?thesis
          by (simp add: p' commitPlayer_def same md nh)
      qed
    qed
    have "\<exists>t < length lm.
                      mplayer (lm ! t) = i \<and> nextHead (lm ! t) = plannedHead ?p
                      \<and> mdirection (lm ! t) = chooseDirection ?p
                      \<and> willEat (lm ! t)
                          = list_ex (sameCell (plannedHead ?p)) (fst (ensureFood (players w) (foods w) r))
                      \<and> snake ?p \<noteq> []
                      \<and> (if dead (resolve (players w) lm ! t)
                         then ?p' = ?p\<lparr>alive := False, snake := [], direction := None,
                                      pendingDirection := None, score := 0, deaths := deaths ?p + 1\<rparr>
                         else if willEat (lm ! t)
                         then ?p' = ?p\<lparr>direction := Some (chooseDirection ?p),
                                      pendingDirection := Some (chooseDirection ?p),
                                      snake := plannedHead ?p # snake ?p, score := score ?p + 1,
                                      best := max (best ?p) (int (length (snake ?p)) + 1)\<rparr>
                              \<and> alive ?p' \<and> length (snake ?p') = length (snake ?p) + 1
                              \<and> last (snake ?p') = last (snake ?p)
                         else ?p' = ?p\<lparr>direction := Some (chooseDirection ?p),
                                      pendingDirection := Some (chooseDirection ?p),
                                      snake := plannedHead ?p # butlast (snake ?p)\<rparr>
                              \<and> alive ?p' \<and> length (snake ?p') = length (snake ?p)
                              \<and> score ?p' = score ?p)"
      by (rule exI[of _ k]) (intro conjI k mk nh md we ne cases3)
    with True show ?thesis
      unfolding Let_def by (simp only: simp_thms if_False)
  qed
  show ?thesis
    by (intro exI[of _ w'] exI[of _ r'] exI[of _ lm] conjI t pm len law allI impI each)
qed

theorem tick_growth_law_witness:
  "list_all lengthLaw (players feast)
   \<and> bodiesAfter (tick feast rng_count) = Some [(True, 1, cells [(5, 4), (4, 4), (3, 4), (2, 4), (1, 4)])]
   \<and> list_all lengthLaw (players (fst (the (tick feast rng_count))))
   \<and> list_all lengthLaw (players cruise)
   \<and> bodiesAfter (tick cruise rng_count)
       = Some [(True, 0, cells [(5, 4), (4, 4), (3, 4), (2, 4)]), (False, 0, [])]
   \<and> list_all lengthLaw (players (fst (the (tick cruise rng_count))))"
proof -
  have h: "list_all lengthLaw (players feast)" by code_simp
  then have h': "\<forall>p \<in> set (players feast). lengthLaw p" by (simp add: list_all_iff)
  have v: "bodiesAfter (tick feast rng_count) = Some [(True, 1, cells [(5, 4), (4, 4), (3, 4), (2, 4), (1, 4)])]"
    by code_simp
  from tick_growth_law[OF h', of rng_count] obtain w' r' where
    t: "tick feast rng_count = Some (w', r')" and law: "\<forall>p \<in> set (players w'). lengthLaw p"
    by blast
  from t law have a: "list_all lengthLaw (players (fst (the (tick feast rng_count))))"
    by (simp add: list_all_iff)
  have g: "list_all lengthLaw (players cruise)" by code_simp
  then have g': "\<forall>p \<in> set (players cruise). lengthLaw p" by (simp add: list_all_iff)
  have u: "bodiesAfter (tick cruise rng_count)
       = Some [(True, 0, cells [(5, 4), (4, 4), (3, 4), (2, 4)]), (False, 0, [])]"
    by code_simp
  from tick_growth_law[OF g', of rng_count] obtain w2 r2 where
    t2: "tick cruise rng_count = Some (w2, r2)" and law2: "\<forall>p \<in> set (players w2). lengthLaw p"
    by blast
  from t2 law2 have b: "list_all lengthLaw (players (fst (the (tick cruise rng_count))))"
    by (simp add: list_all_iff)
  from h v a g u b show ?thesis by simp
qed

subsection \<open>Well-formed worlds\<close>

text \<open>
  As long as every direction field holds a direction, the tick keeps every alive
  body inside the grid, free of repeated cells and disjoint from the other
  bodies: a surviving move enters a cell that no body occupies, or the tail cell
  of a snake whose own move does not eat; and two surviving moves never enter
  the same cell. \<open>spawnPlayer\<close> and an input with one of the four direction keys
  keep a world well-formed too.
\<close>

lemma inner_occ_sound:
  "fold (\<lambda>(index, segment) m'. m'(posKey segment \<mapsto> (q, index))) (enumerate n xs) m k = Some (a, idx) \<Longrightarrow>
   m k = Some (a, idx) \<or> (a = q \<and> n \<le> idx \<and> idx - n < length xs \<and> posKey (xs ! (idx - n)) = k)"
proof (induction xs arbitrary: n m)
  case Nil
  then show ?case by simp
next
  case (Cons x xs)
  from Cons.prems
  have "fold (\<lambda>(index, segment) m'. m'(posKey segment \<mapsto> (q, index))) (enumerate (Suc n) xs)
          (m(posKey x \<mapsto> (q, n))) k = Some (a, idx)"
    by (simp del: fun_upd_apply)
  from Cons.IH[OF this]
  show ?case
  proof
    assume "(m(posKey x \<mapsto> (q, n))) k = Some (a, idx)"
    then show ?thesis by (auto split: if_splits)
  next
    assume "a = q \<and> Suc n \<le> idx \<and> idx - Suc n < length xs \<and> posKey (xs ! (idx - Suc n)) = k"
    then show ?thesis by (auto simp: Suc_diff_le less_eq_Suc_le)
  qed
qed

lemma inner_occ_dom:
  "dom (fold (\<lambda>(index, segment) m'. m'(posKey segment \<mapsto> (q, index))) (enumerate n xs) m)
     = dom m \<union> posKey ` set xs"
  by (induction xs arbitrary: n m) auto

lemma occ_sound_aux:
  "fold (\<lambda>p m.
        if alive p
        then fold (\<lambda>(index, segment) m'. m'(posKey segment \<mapsto> (pid p, index)))
               (enumerate 0 (snake p)) m
        else m) ps acc k = Some (a, idx) \<Longrightarrow>
   acc k = Some (a, idx)
   \<or> (\<exists>p \<in> set ps. alive p \<and> pid p = a \<and> idx < length (snake p) \<and> posKey (snake p ! idx) = k)"
proof (induction ps arbitrary: acc)
  case Nil
  then show ?case by simp
next
  case (Cons p ps)
  show ?case
  proof (cases "alive p")
    case False
    with Cons.prems Cons.IH[of acc] show ?thesis by auto
  next
    case True
    let ?m = "fold (\<lambda>(index, segment) m'. m'(posKey segment \<mapsto> (pid p, index))) (enumerate 0 (snake p)) acc"
    from Cons.prems True Cons.IH[of ?m]
    have "?m k = Some (a, idx)
          \<or> (\<exists>p \<in> set ps. alive p \<and> pid p = a \<and> idx < length (snake p) \<and> posKey (snake p ! idx) = k)"
      by simp
    then show ?thesis
    proof
      assume "?m k = Some (a, idx)"
      from inner_occ_sound[OF this] True show ?thesis by auto
    next
      assume "\<exists>p \<in> set ps. alive p \<and> pid p = a \<and> idx < length (snake p) \<and> posKey (snake p ! idx) = k"
      then show ?thesis by auto
    qed
  qed
qed

lemma occ_sound:
  "buildBodyOccupancy ps k = Some (a, idx) \<Longrightarrow>
   \<exists>p \<in> set ps. alive p \<and> pid p = a \<and> idx < length (snake p) \<and> posKey (snake p ! idx) = k"
  unfolding buildBodyOccupancy_def using occ_sound_aux[of ps Map.empty k a idx] by simp

lemma occ_dom_aux:
  "dom (fold (\<lambda>p m.
        if alive p
        then fold (\<lambda>(index, segment) m'. m'(posKey segment \<mapsto> (pid p, index)))
               (enumerate 0 (snake p)) m
        else m) ps acc)
     = dom acc \<union> (\<Union>p \<in> set (filter alive ps). posKey ` set (snake p))"
  by (induction ps arbitrary: acc) (auto simp: inner_occ_dom)

lemma occ_dom: "dom (buildBodyOccupancy ps) = (\<Union>p \<in> set (filter alive ps). posKey ` set (snake p))"
  unfolding buildBodyOccupancy_def by (simp add: occ_dom_aux)

lemma occ_None_iff:
  "(buildBodyOccupancy ps (posKey c) = None) = (\<forall>p \<in> set ps. alive p \<longrightarrow> c \<notin> set (snake p))"
proof -
  have "(buildBodyOccupancy ps (posKey c) = None) = (posKey c \<notin> dom (buildBodyOccupancy ps))"
    by auto
  also have "\<dots> = (\<forall>p \<in> set ps. alive p \<longrightarrow> c \<notin> set (snake p))"
    by (auto simp: occ_dom inj_image_mem_iff[OF inj_posKey])
  finally show ?thesis .
qed

lemma players_get_distinct:
  "distinct (map pid ps) \<Longrightarrow> i < length ps \<Longrightarrow> players_get ps (pid (ps ! i)) = Some i"
  unfolding players_get_def
  by (intro findIndex_first) (auto simp: distinct_conv_nth)

lemma survivor_facts:
  assumes fresh: "\<forall>m \<in> set lm. \<not> dead m" and t: "t < length lm"
      and alive_after: "\<not> dead (resolve ps lm ! t)"
  shows "\<not> outOfGrid (nextHead (lm ! t))"
    and "\<not> dead (afterBody ps lm ! t)"
    and "buildBodyOccupancy ps (posKey (nextHead (lm ! t))) = None
         \<or> (\<exists>opid oidx j. buildBodyOccupancy ps (posKey (nextHead (lm ! t))) = Some (opid, oidx)
               \<and> isTail ps opid oidx \<and> moveById ps lm opid = Some j \<and> \<not> willEat (lm ! j))"
proof -
  let ?occ = "buildBodyOccupancy ps" and ?byId = "moveById ps lm"
  let ?w = "wallPass lm"
  have res: "resolve ps lm = headPass (afterBody ps lm)"
    by (simp add: resolve_def afterBody_def)
  show ab: "\<not> dead (afterBody ps lm ! t)"
    using alive_after t headPass_dead[of t "afterBody ps lm"] by (auto simp: res)
  have wt: "\<not> dead (?w ! t)"
  proof
    assume "dead (?w ! t)"
    then have "afterBody ps lm ! t = ?w ! t"
      by (simp add: afterBody_def bodyPass_def bodyPassIn_dead)
    with ab \<open>dead (?w ! t)\<close> show False by simp
  qed
  have lt: "\<not> dead (lm ! t)" using fresh t by simp
  from wt lt t show out: "\<not> outOfGrid (nextHead (lm ! t))"
    by (auto simp: wallPass_nth split: if_splits)
  with lt t have weq: "?w ! t = lm ! t" by (simp add: wallPass_nth)
  define st where "st = bodyPassIn [0..<t] ps ?occ ?byId ?w"
  have stt: "st ! t = lm ! t" by (simp add: st_def bodyPassIn_other weq)
  have len: "length st = length lm" by (simp add: st_def)
  have at: "afterBody ps lm ! t = bodyStep ps ?occ ?byId t st ! t"
    using t by (simp add: afterBody_def bodyPass_at st_def)
  have planst: "map plan st = map plan lm"
    by (simp add: st_def plan_bodyPassIn plan_wallPass)
  show "?occ (posKey (nextHead (lm ! t))) = None
         \<or> (\<exists>opid oidx j. ?occ (posKey (nextHead (lm ! t))) = Some (opid, oidx)
               \<and> isTail ps opid oidx \<and> ?byId opid = Some j \<and> \<not> willEat (lm ! j))"
  proof (cases "?occ (posKey (nextHead (lm ! t)))")
    case None
    then show ?thesis by simp
  next
    case (Some oc)
    obtain opid oidx where oc: "oc = (opid, oidx)" by (cases oc)
    have vac: "occupantWillVacate ps ?byId st opid oidx"
    proof (rule ccontr)
      assume "\<not> occupantWillVacate ps ?byId st opid oidx"
      with Some oc lt t len have "bodyStep ps ?occ ?byId t st ! t = kill Body (lm ! t)"
        by (simp add: bodyStep_collapsed stt)
      with at ab show False by simp
    qed
    then obtain j where j: "?byId opid = Some j" and nd: "\<not> willEat (st ! j)" and tl: "isTail ps opid oidx"
      by (auto simp: occupantWillVacate_def split: option.splits)
    from moveById_range[OF j] have jl: "j < length lm" .
    from plan_nth[OF planst jl] nd have "\<not> willEat (lm ! j)" by (simp add: plan_def)
    with Some oc j tl show ?thesis by simp
  qed
qed

lemma chooseDirection_known:
  "knownDir (direction p) \<Longrightarrow> knownDir (pendingDirection p) \<Longrightarrow> \<exists>d. chooseDirection p = Known d"
  by (auto simp: knownDir_def chooseDirection_def split: option.splits jsdir.splits)

lemma plannedHead_inGrid:
  assumes "snake p \<noteq> []" "inGrid (hd (snake p))" "chooseDirection p = Known d"
      and "\<not> outOfGrid (plannedHead p)"
  shows "inGrid (plannedHead p)"
proof -
  obtain x y where h: "hd (snake p) = (Num x, Num y)"
    using assms(2) by (cases "hd (snake p)" rule: inGrid.cases) auto
  then have "plannedHead p = (Num (x + dx d), Num (y + dy d))"
    by (simp add: plannedHead_def assms(3))
  with assms(4) show ?thesis
    by (simp add: outOfGrid_def not_less not_le)
qed

lemma survivor_enters_only_vacated_tail:
  assumes ids: "distinct (map pid ps)" and dj: "disjointBodies ps"
      and pm: "planMoves fs ps = Some lm"
      and t: "t < length lm" and surv: "\<not> dead (resolve ps lm ! t)"
      and b: "b < length ps" "alive (ps ! b)"
      and inb: "nextHead (lm ! t) \<in> set (snake (ps ! b))"
  shows "nextHead (lm ! t) = last (snake (ps ! b))
       \<and> (\<exists>j<length lm. mplayer (lm ! j) = b \<and> \<not> willEat (lm ! j))"
proof -
  let ?nh = "nextHead (lm ! t)"
  have fresh: "\<forall>m \<in> set lm. \<not> dead m"
    using planMoves_indices(3)[OF pm] by (auto simp: in_set_conv_nth)
  have "buildBodyOccupancy ps (posKey ?nh) \<noteq> None"
    using b inb by (auto simp: occ_None_iff)
  with survivor_facts(3)[OF fresh t surv] obtain opid oidx j where
    occ: "buildBodyOccupancy ps (posKey ?nh) = Some (opid, oidx)"
    and tl: "isTail ps opid oidx" and byId: "moveById ps lm opid = Some j" and ne: "\<not> willEat (lm ! j)"
    by auto
  from occ_sound[OF occ] obtain p where p: "p \<in> set ps" "alive p" "pid p = opid"
    "oidx < length (snake p)" "snake p ! oidx = ?nh"
    by auto
  from p(1) obtain b' where b': "b' < length ps" "ps ! b' = p" by (auto simp: in_set_conv_nth)
  have "?nh \<in> set (snake (ps ! b'))" using p(4,5) b'(2) by (metis nth_mem)
  with inb have "set (snake (ps ! b)) \<inter> set (snake (ps ! b')) \<noteq> {}" by blast
  with dj b b' p(2) have same: "b' = b"
    unfolding disjointBodies_def by metis
  have opid: "opid = pid (ps ! b)" using p(3) b'(2) same by simp
  have "players_get ps opid = Some b"
    unfolding opid by (rule players_get_distinct[OF ids b(1)])
  with tl have "int oidx = int (length (snake (ps ! b))) - 1"
    by (simp add: isTail_def)
  then have oi: "oidx = length (snake (ps ! b)) - 1" by linarith
  have nonempty: "snake (ps ! b) \<noteq> []" using inb by auto
  have "snake (ps ! b) ! oidx = ?nh" using p(5) b'(2) same by simp
  with oi nonempty have last: "?nh = last (snake (ps ! b))"
    by (simp add: last_conv_nth)
  from moveById_sound[OF byId] have jl: "j < length lm" and pj: "pid (ps ! mplayer (lm ! j)) = opid"
    by simp_all
  have "mplayer (lm ! j) < length ps" by (rule planMoves_indices(1)[OF pm jl])
  with pj opid ids b(1) have "mplayer (lm ! j) = b"
    by (metis distinct_conv_nth length_map nth_map)
  with jl ne last show ?thesis by blast
qed

lemma last_notin_butlast:
  assumes "distinct xs" "xs \<noteq> []"
  shows "last xs \<notin> set (butlast xs)"
proof -
  have "distinct (butlast xs @ [last xs])" using assms by simp
  then show ?thesis by (simp only: distinct_append) auto
qed

lemma alive_after_tick:
  assumes pm: "planMoves fs ps = Some lm" and i: "i < length ps"
      and nth: "p' = (case find (\<lambda>m. mplayer m = i) (resolve ps lm) of
                        None \<Rightarrow> ps ! i | Some m \<Rightarrow> commitPlayer m (ps ! i))"
  shows "pid p' = pid (ps ! i)"
    and "alive p' \<Longrightarrow>
         \<exists>t<length lm. mplayer (lm ! t) = i \<and> \<not> dead (resolve ps lm ! t) \<and> alive (ps ! i)
            \<and> snake p' = nextHead (lm ! t) # (if willEat (lm ! t) then snake (ps ! i) else butlast (snake (ps ! i)))
            \<and> direction p' = Some (mdirection (lm ! t)) \<and> pendingDirection p' = Some (mdirection (lm ! t))"
proof -
  let ?res = "resolve ps lm"
  show "pid p' = pid (ps ! i)"
    unfolding nth by (simp add: commitPlayer_def killPlayer_def split: option.splits)
  assume al: "alive p'"
  have mpl: "map mplayer ?res = filter (\<lambda>i. alive (ps ! i)) [0..<length ps]"
  proof -
    have "map mplayer ?res = map fst (map plan ?res)" by (simp add: plan_def comp_def)
    also have "\<dots> = map mplayer lm" by (simp add: plan_resolve plan_def comp_def)
    finally show ?thesis using planMoves_Some(1)[OF pm] by simp
  qed
  show "\<exists>t<length lm. mplayer (lm ! t) = i \<and> \<not> dead (?res ! t) \<and> alive (ps ! i)
            \<and> snake p' = nextHead (lm ! t) # (if willEat (lm ! t) then snake (ps ! i) else butlast (snake (ps ! i)))
            \<and> direction p' = Some (mdirection (lm ! t)) \<and> pendingDirection p' = Some (mdirection (lm ! t))"
  proof (cases "find (\<lambda>m. mplayer m = i) ?res")
    case None
    then have "i \<notin> set (map mplayer ?res)" by (rule find_mplayer(1))
    with mpl i have "\<not> alive (ps ! i)" by simp
    with None nth al show ?thesis by simp
  next
    case (Some m)
    from find_index_of[OF Some] obtain t where t: "t < length lm" "?res ! t = m" "mplayer m = i"
      by auto
    have pl: "plan m = plan (lm ! t)"
      using plan_nth[OF plan_resolve t(1), of ps] t(2) by simp
    have alp: "alive (ps ! i)"
      using planMoves_indices(2)[OF pm t(1)] pl t(3) by (simp add: plan_def)
    have p': "p' = commitPlayer m (ps ! i)" using Some nth by simp
    have nd: "\<not> dead m"
    proof
      assume "dead m"
      with p' alp have "\<not> alive p'" by (simp add: commitPlayer_def killPlayer_def)
      with al show False by simp
    qed
    have ne: "snake (ps ! i) \<noteq> []"
      using resolved_move_plan[OF pm, of m] t by (metis nth_mem length_resolve)
    from p' nd pl ne have "snake p' = nextHead (lm ! t) # (if willEat (lm ! t) then snake (ps ! i) else butlast (snake (ps ! i)))
            \<and> direction p' = Some (mdirection (lm ! t)) \<and> pendingDirection p' = Some (mdirection (lm ! t))"
      by (auto simp: commitPlayer_def plan_def)
    with t nd pl alp show ?thesis by (auto simp: plan_def)
  qed
qed

lemma new_head_not_in_rest:
  assumes ids: "distinct (map pid ps)" and dj: "disjointBodies ps"
      and pm: "planMoves fs ps = Some lm"
      and t: "t < length lm" and surv: "\<not> dead (resolve ps lm ! t)"
      and u: "u < length lm" and dist: "distinct (snake (ps ! mplayer (lm ! u)))"
  shows "nextHead (lm ! t)
           \<notin> set (if willEat (lm ! u) then snake (ps ! mplayer (lm ! u))
                   else butlast (snake (ps ! mplayer (lm ! u))))"
proof
  let ?b = "mplayer (lm ! u)"
  assume mem: "nextHead (lm ! t)
           \<in> set (if willEat (lm ! u) then snake (ps ! ?b) else butlast (snake (ps ! ?b)))"
  then have inb: "nextHead (lm ! t) \<in> set (snake (ps ! ?b))"
    by (auto dest: in_set_butlastD split: if_splits)
  have b: "?b < length ps" "alive (ps ! ?b)"
    using planMoves_indices(1,2)[OF pm u] by simp_all
  from survivor_enters_only_vacated_tail[OF ids dj pm t surv b inb]
  obtain j where last: "nextHead (lm ! t) = last (snake (ps ! ?b))"
    and j: "j < length lm" "mplayer (lm ! j) = ?b" "\<not> willEat (lm ! j)"
    by blast
  have "distinct (map mplayer lm)"
    using planMoves_Some(1)[OF pm] by simp
  with j(1,2) u have "j = u"
    by (metis distinct_conv_nth length_map nth_map)
  with j(3) mem have "nextHead (lm ! t) \<in> set (butlast (snake (ps ! ?b)))" by simp
  moreover have "snake (ps ! ?b) \<noteq> []" using inb by auto
  ultimately show False
    using last last_notin_butlast[OF dist] by simp
qed

lemma tick_preserves_wellFormed:
  assumes wf: "wellFormed w" and tk: "tick w r = Some (w', r')"
  shows "wellFormed w'"
proof -
  let ?ps = "players w" and ?ps' = "players w'"
  from wf have ids: "distinct (map pid ?ps)" and sound: "\<forall>p \<in> set ?ps. soundBody p"
    and dj: "disjointBodies ?ps"
    by (simp_all add: wellFormed_def list_all_iff)
  from tick_players[OF tk] obtain lm where
    pm: "planMoves (fst (ensureFood ?ps (foods w) r)) ?ps = Some lm"
    and len: "length ?ps' = length ?ps"
    and nth: "\<forall>i<length ?ps. ?ps' ! i = (case find (\<lambda>m. mplayer m = i) (resolve ?ps lm) of
                                 None \<Rightarrow> ?ps ! i | Some m \<Rightarrow> commitPlayer m (?ps ! i))"
    by blast
  let ?res = "resolve ?ps lm"
  let ?rest = "\<lambda>t. if willEat (lm ! t) then snake (?ps ! mplayer (lm ! t))
                    else butlast (snake (?ps ! mplayer (lm ! t)))"
  have after: "\<exists>t<length lm. mplayer (lm ! t) = i \<and> \<not> dead (?res ! t) \<and> alive (?ps ! i)
            \<and> snake (?ps' ! i) = nextHead (lm ! t) # ?rest t
            \<and> direction (?ps' ! i) = Some (mdirection (lm ! t))
            \<and> pendingDirection (?ps' ! i) = Some (mdirection (lm ! t))"
    if "i < length ?ps" "alive (?ps' ! i)" for i
    using alive_after_tick(2)[OF pm that(1) nth[rule_format, OF that(1)] that(2)] by auto
  have old: "soundBody (?ps ! i)" if "i < length ?ps" for i
    using sound that by simp
  have rest_sub: "set (?rest t) \<subseteq> set (snake (?ps ! mplayer (lm ! t)))" for t
    by (auto dest: in_set_butlastD)
  have fresh: "\<forall>m \<in> set lm. \<not> dead m"
    using planMoves_indices(3)[OF pm] by (auto simp: in_set_conv_nth)
  \<comment> \<open>the identifiers\<close>
  have "map pid ?ps' = map pid ?ps"
    using len alive_after_tick(1)[OF pm _ nth[rule_format]]
    by (intro nth_equalityI) simp_all
  with ids have ids': "distinct (map pid ?ps')" by simp
  \<comment> \<open>each body\<close>
  have sound': "soundBody (?ps' ! i)" if i: "i < length ?ps" for i
  proof (cases "alive (?ps' ! i)")
    case False
    then show ?thesis by (simp add: soundBody_def)
  next
    case True
    from after[OF i True] obtain t where t: "t < length lm" "mplayer (lm ! t) = i"
      and surv: "\<not> dead (?res ! t)" and alp: "alive (?ps ! i)"
      and sn: "snake (?ps' ! i) = nextHead (lm ! t) # ?rest t"
      and dir: "direction (?ps' ! i) = Some (mdirection (lm ! t))"
               "pendingDirection (?ps' ! i) = Some (mdirection (lm ! t))"
      by blast
    from old[OF i] alp have o: "snake (?ps ! i) \<noteq> []" "list_all inGrid (snake (?ps ! i))"
      "distinct (snake (?ps ! i))" "knownDir (direction (?ps ! i))" "knownDir (pendingDirection (?ps ! i))"
      by (simp_all add: soundBody_def)
    from chooseDirection_known[OF o(4,5)] obtain d where d: "chooseDirection (?ps ! i) = Known d" by blast
    have nh: "nextHead (lm ! t) = plannedHead (?ps ! i)"
      and md: "mdirection (lm ! t) = Known d"
      using planMoves_indices(4,5)[OF pm t(1)] t(2) d by simp_all
    have "inGrid (hd (snake (?ps ! i)))"
      using o(1,2) by (simp add: list_all_iff)
    moreover have "\<not> outOfGrid (plannedHead (?ps ! i))"
      using survivor_facts(1)[OF fresh t(1) surv] nh by simp
    ultimately have hin: "inGrid (nextHead (lm ! t))"
      using plannedHead_inGrid[OF o(1) _ d] nh by simp
    have rin: "list_all inGrid (?rest t)"
      using o(2) rest_sub[of t] t(2) by (auto simp: list_all_iff)
    have rdist: "distinct (?rest t)"
      using o(3) t(2) by (simp add: distinct_butlast)
    have "nextHead (lm ! t) \<notin> set (?rest t)"
      using new_head_not_in_rest[OF ids dj pm t(1) surv t(1)] o(3) t(2) by simp
    with hin rin rdist sn dir md show ?thesis
      by (simp add: soundBody_def knownDir_def)
  qed
  \<comment> \<open>two bodies\<close>
  have disjoint': "set (snake (?ps' ! i)) \<inter> set (snake (?ps' ! j)) = {}"
    if i: "i < length ?ps" and j: "j < length ?ps" and ij: "i \<noteq> j"
      and ai: "alive (?ps' ! i)" and aj: "alive (?ps' ! j)" for i j
  proof -
    from after[OF i ai] obtain t where t: "t < length lm" "mplayer (lm ! t) = i"
      and st: "\<not> dead (?res ! t)" and alpi: "alive (?ps ! i)"
      and si: "snake (?ps' ! i) = nextHead (lm ! t) # ?rest t"
      by blast
    from after[OF j aj] obtain u where u: "u < length lm" "mplayer (lm ! u) = j"
      and su: "\<not> dead (?res ! u)" and alpj: "alive (?ps ! j)"
      and sj: "snake (?ps' ! j) = nextHead (lm ! u) # ?rest u"
      by blast
    have tu: "t \<noteq> u" using t(2) u(2) ij by auto
    have di: "distinct (snake (?ps ! i))" and dj': "distinct (snake (?ps ! j))"
      using old[OF i] old[OF j] alpi alpj by (simp_all add: soundBody_def)
    have res: "?res = headPass (afterBody ?ps lm)"
      by (simp add: resolve_def afterBody_def)
    have "posKey (nextHead (afterBody ?ps lm ! t)) \<noteq> posKey (nextHead (afterBody ?ps lm ! u))"
      using headPass_survivors_distinct[of t "afterBody ?ps lm" u] t(1) u(1) tu st su
      by (simp add: res)
    moreover have "nextHead (afterBody ?ps lm ! t) = nextHead (lm ! t)"
      "nextHead (afterBody ?ps lm ! u) = nextHead (lm ! u)"
      using plan_nth[OF plan_afterBody t(1), of ?ps] plan_nth[OF plan_afterBody u(1), of ?ps]
      by (simp_all add: plan_def)
    ultimately have heads: "nextHead (lm ! t) \<noteq> nextHead (lm ! u)" by auto
    have a: "nextHead (lm ! t) \<notin> set (?rest u)"
      using new_head_not_in_rest[OF ids dj pm t(1) st u(1)] dj' u(2) by simp
    have b: "nextHead (lm ! u) \<notin> set (?rest t)"
      using new_head_not_in_rest[OF ids dj pm u(1) su t(1)] di t(2) by simp
    have "set (snake (?ps ! i)) \<inter> set (snake (?ps ! j)) = {}"
      using dj i j ij alpi alpj unfolding disjointBodies_def by blast
    with rest_sub[of t] rest_sub[of u] t(2) u(2)
    have c: "set (?rest t) \<inter> set (?rest u) = {}" by blast
    from heads a b c show ?thesis
      unfolding si sj by auto
  qed
  have "list_all soundBody ?ps'"
    using sound' len by (auto simp: list_all_iff in_set_conv_nth)
  moreover have "disjointBodies ?ps'"
    unfolding disjointBodies_def using disjoint' len by auto
  ultimately show ?thesis
    using ids' by (simp add: wellFormed_def)
qed

lemma distinct_layout: "distinct (map (segmentAt d hx hy) [0..<n])"
proof -
  have "inj (segmentAt d hx hy)"
    by (rule injI) (cases d; simp add: segmentAt_def)
  then have "inj_on (segmentAt d hx hy) (set [0..<n])"
    by (rule inj_on_subset) simp
  then show ?thesis by (simp add: distinct_map)
qed

lemma spawnPlayer_wellFormed:
  assumes wf: "wellFormed \<lparr>players = ps, foods = fs\<rparr>"
      and i: "i < length ps" and dead: "\<not> alive (ps ! i)"
      and sp: "spawnPlayer ps fs (ps ! i) now r = (True, p', r')"
  shows "wellFormed \<lparr>players = ps[i := p'], foods = fs\<rparr>"
proof -
  from spawnAttempts_success[OF sp[unfolded spawnPlayer_def]]
  obtain d hx hy body where
    lay: "layoutSnake (getOccupiedSet ps fs) d hx hy [0..<INITIAL_LENGTH] [] = Some body"
    and p': "p' = (ps ! i)\<lparr>snake := body, direction := Some (Known d), pendingDirection := Some (Known d),
                        alive := True, score := 0, spawnedAt := Some now\<rparr>"
    by blast
  from layoutSnake_Some[OF lay]
  have body: "body = map (segmentAt d hx hy) [0..<INITIAL_LENGTH]"
    and ok: "\<forall>k \<in> set [0..<INITIAL_LENGTH]. 0 \<le> hx - dx d * int k \<and> hx - dx d * int k < GRID_COLS
                    \<and> 0 \<le> hy - dy d * int k \<and> hy - dy d * int k < GRID_ROWS
                    \<and> posKey (segmentAt d hx hy k) \<notin> getOccupiedSet ps fs"
    by simp_all
  have free: "c \<notin> set (snake q)" if "c \<in> set body" "q \<in> set ps" "alive q" for c q
    using that ok body by (auto simp: getOccupiedSet_def)
  have sb: "soundBody p'"
    using ok by (auto simp: soundBody_def p' body distinct_layout list_all_iff segmentAt_def
        knownDir_def INITIAL_LENGTH_def)
  from wf have ids: "distinct (map pid ps)" and sound: "\<forall>p \<in> set ps. soundBody p"
    and dj: "disjointBodies ps"
    by (simp_all add: wellFormed_def list_all_iff)
  have "map pid (ps[i := p']) = map pid ps"
    using i by (simp add: p' map_update list_update_same_conv)
  with ids have ids': "distinct (map pid (ps[i := p']))" by simp
  have sound': "list_all soundBody (ps[i := p'])"
    using sound sb by (auto simp: list_all_iff dest: set_update_subset_insert[THEN subsetD])
  have dj': "disjointBodies (ps[i := p'])"
    unfolding disjointBodies_def
  proof (intro allI impI)
    fix a b assume a: "a < length (ps[i := p'])" and b: "b < length (ps[i := p'])"
      and h0: "a \<noteq> b \<and> alive (ps[i := p'] ! a) \<and> alive (ps[i := p'] ! b)"
    then have h: "a \<noteq> b" "alive (ps[i := p'] ! a)" "alive (ps[i := p'] ! b)" by simp_all
    have sym: "set (snake p') \<inter> set (snake (ps ! c)) = {}" if "c < length ps" "alive (ps ! c)" for c
      using free[of _ "ps ! c"] that by (auto simp: p')
    show "set (snake (ps[i := p'] ! a)) \<inter> set (snake (ps[i := p'] ! b)) = {}"
    proof (cases "a = i")
      case True
      with a b h sym[of b] show ?thesis by (auto simp: nth_list_update)
    next
      case False
      show ?thesis
      proof (cases "b = i")
        case True
        with a b h False sym[of a] show ?thesis by (auto simp: nth_list_update)
      next
        case nb: False
        with False a b h dj show ?thesis
          unfolding disjointBodies_def by (simp add: nth_list_update)
      qed
    qed
  qed
  from ids' sound' dj' show ?thesis by (simp add: wellFormed_def)
qed

lemma handleInput_wellFormed:
  assumes wf: "wellFormed \<lparr>players = ps, foods = fs\<rparr>"
      and k: "directionKey \<in> {''up'', ''right'', ''down'', ''left''}"
  shows "wellFormed \<lparr>players = handleInput ps sid directionKey now, foods = fs\<rparr>"
proof -
  from k obtain d where d: "DIRECTIONS directionKey = Some (Known d)"
    by (auto simp: DIRECTIONS_def)
  have "handleInput ps sid directionKey now = ps
        \<or> (\<exists>i<length ps. handleInput ps sid directionKey now
              = ps[i := (ps ! i)\<lparr>pendingDirection := Some (Known d), lastInputAt := now\<rparr>])"
    using d findIndex_Some[of "\<lambda>p. pid p = sid" ps]
    by (auto simp: handleInput_def players_get_def Let_def split: option.splits)
  then show ?thesis
  proof
    assume "handleInput ps sid directionKey now = ps"
    with wf show ?thesis by simp
  next
    assume "\<exists>i<length ps. handleInput ps sid directionKey now
              = ps[i := (ps ! i)\<lparr>pendingDirection := Some (Known d), lastInputAt := now\<rparr>]"
    then obtain i where i: "i < length ps"
      and h: "handleInput ps sid directionKey now
              = ps[i := (ps ! i)\<lparr>pendingDirection := Some (Known d), lastInputAt := now\<rparr>]"
      by blast
    let ?q = "(ps ! i)\<lparr>pendingDirection := Some (Known d), lastInputAt := now\<rparr>"
    from wf have ids: "distinct (map pid ps)" and sound: "\<forall>p \<in> set ps. soundBody p"
      and dj: "disjointBodies ps"
      by (simp_all add: wellFormed_def list_all_iff)
    have "map pid (ps[i := ?q]) = map pid ps"
      using i by (simp add: map_update list_update_same_conv)
    with ids have ids': "distinct (map pid (ps[i := ?q]))" by simp
    have "soundBody ?q" using sound i by (auto simp: soundBody_def knownDir_def)
    with sound have sound': "list_all soundBody (ps[i := ?q])"
      by (auto simp: list_all_iff dest: set_update_subset_insert[THEN subsetD])
    have same: "alive (ps[i := ?q] ! a) = alive (ps ! a) \<and> snake (ps[i := ?q] ! a) = snake (ps ! a)"
      if "a < length ps" for a
      using that by (cases "a = i") simp_all
    have dj': "disjointBodies (ps[i := ?q])"
      using dj same unfolding disjointBodies_def by simp
    from ids' sound' dj' show ?thesis by (simp add: wellFormed_def h)
  qed
qed

text \<open>
  C6. After a tick every segment of an alive participant is inside the grid and
  no body repeats a cell. In a well-formed world this is so
  (\<open>tick_preserves_wellFormed\<close>), but \<open>handleInput\<close> does not keep the world
  well-formed: for the key \<open>constructor\<close> it buffers an inherited member as the
  pending direction. The planned head of that participant is \<open>(NaN, NaN)\<close>, no
  comparison of the wall pass is true of it, no body occupies the key
  \<open>"NaN,NaN"\<close>, and the move is committed. The participant is alive after the
  tick with a head that is not a cell of the grid.
\<close>

theorem tick_commits_head_outside_grid:
  "bodiesAfter (tick hijacked rng_count)
     = Some [(True, 0, [(NaN, NaN), (Num 4, Num 4), (Num 3, Num 4), (Num 2, Num 4)])]
   \<and> \<not> inGrid (NaN, NaN)"
proof -
  have "bodiesAfter (tick hijacked rng_count)
     = Some [(True, 0, [(NaN, NaN), (Num 4, Num 4), (Num 3, Num 4), (Num 2, Num 4)])]"
    by code_simp
  then show ?thesis by simp
qed

end
